theory Spec2Isabelle
  imports Main "HOL-Library.List_Lexorder" "HOL-Library.Char_ord"
begin

section \<open>ldapts: an LDAPv3 client\<close>

text \<open>
  A shallow embedding of the parts of the client that the specification's claims are
  about: message-id allocation, the pending request table and the socket close handler,
  \<open>unbind\<close> and \<open>search\<close> with its page loop (\<^verbatim>\<open>src/Client.ts\<close>), the And, Or, Not
  and Equality filters with the BER filter parser (\<^verbatim>\<open>src/filters\<close>, \<^verbatim>\<open>FilterParser.js\<close>),
  and the equality of relative distinguished names (\<^verbatim>\<open>dist/dn/RDN.js\<close>).

  JavaScript numbers that hold integers are \<open>int\<close> or \<open>nat\<close>; a JavaScript string is
  the \<open>string\<close> of its UTF-8 bytes; exceptions and rejected promises are values.
  What belongs to the JavaScript engine and is not fixed by a few lines
  (\<^verbatim>\<open>String.prototype.toLowerCase\<close>) is a parameter of the definitions that call it.
\<close>

subsection \<open>Errors and promise outcomes\<close>

text \<open>
  Every \<^verbatim>\<open>throw\<close> and every rejected promise is a value. \<open>StatusError status message\<close>
  stands for \<^verbatim>\<open>StatusCodeParser.parse(result.status, result.errorMessage)\<close>: the
  status-code mapper is not among the sources, so its typed error is kept as the pair it
  is built from. \<open>ConnectionClosed name\<close> is the error of the socket close handler, which
  names the constructor of the pending message. \<open>NotAmongSources name\<close> marks the point
  where a run enters a class whose code is not among the sources.
\<close>

datatype error =
    Error string
  | StatusError int string
  | ConnectionClosed string
  | TypeError string
  | NotAmongSources string

text \<open>
  An \<^verbatim>\<open>async\<close> call either resolves, rejects, or is still waiting for an event that the
  modelled run does not contain.
\<close>

datatype 'a outcome = Resolved 'a | Rejected error | Pending

subsection \<open>Controls, messages and the client state (\<^verbatim>\<open>src/Client.ts\<close>)\<close>

text \<open>
  The value of a Paged-Results control: \<^verbatim>\<open>{ size, cookie? }\<close>, the cookie a Buffer.
\<close>

record paged_value =
  size :: int
  cookie :: "string option"

text \<open>
  A control is a \<^verbatim>\<open>PagedResultsControl\<close> (whose \<^verbatim>\<open>value\<close> may be undefined) or any other
  control, of which only the OID is kept. \<open>is_PagedResultsControl\<close> is
  \<^verbatim>\<open>control instanceof PagedResultsControl\<close>.
\<close>

datatype control =
    PagedResultsControl "paged_value option"
  | OtherControl string

fun is_PagedResultsControl :: "control \<Rightarrow> bool" where
  "is_PagedResultsControl (PagedResultsControl v) = True"
| "is_PagedResultsControl (OtherControl oid) = False"

datatype scope = Base | One | Sub | Children

text \<open>
  The fields that \<^verbatim>\<open>search\<close> passes to \<^verbatim>\<open>new SearchRequest({...})\<close> (lines 580-591), kept as
  they are passed; \<open>'f\<close> is the type of filters.
\<close>

record 'f search_request =
  sr_messageId :: int
  sr_baseDN :: string
  sr_scope :: "scope option"
  sr_filter :: 'f
  sr_attributes :: "string list option"
  sr_explicitBufferAttributes :: "string list option"
  sr_returnAttributeValues :: "bool option"
  sr_sizeLimit :: "int option"
  sr_timeLimit :: "int option"
  sr_controls :: "control list"

text \<open>
  A request message: what the pending request table and the socket need of it are its
  class (\<^verbatim>\<open>instanceof UnbindRequest\<close>, \<^verbatim>\<open>constructor.name\<close>) and its \<^verbatim>\<open>messageId\<close>.
\<close>

datatype 'f message =
    UnbindRequest int
  | SearchRequest "'f search_request"
  | OtherRequest string int

fun message_messageId :: "'f message \<Rightarrow> int" where
  "message_messageId (UnbindRequest i) = i"
| "message_messageId (SearchRequest r) = sr_messageId r"
| "message_messageId (OtherRequest n i) = i"

fun is_UnbindRequest :: "'f message \<Rightarrow> bool" where
  "is_UnbindRequest (UnbindRequest i) = True"
| "is_UnbindRequest (SearchRequest r) = False"
| "is_UnbindRequest (OtherRequest n i) = False"

fun constructor_name :: "'f message \<Rightarrow> string" where
  "constructor_name (UnbindRequest i) = ''UnbindRequest''"
| "constructor_name (SearchRequest r) = ''SearchRequest''"
| "constructor_name (OtherRequest n i) = n"

text \<open>
  \<^verbatim>\<open>type SocketWithId = { id?: string } & (net.Socket | tls.TLSSocket)\<close>. A socket is an
  object: \<open>sock_ref\<close> is its identity (what \<^verbatim>\<open>===\<close> compares) and \<open>sock_id\<close> its \<^verbatim>\<open>id\<close>
  property, which \<^verbatim>\<open>_connect\<close> sets to a UUID and \<^verbatim>\<open>startTLS\<close> copies to the TLS socket.
\<close>

record socket_with_id =
  sock_ref :: nat
  sock_id :: "string option"

text \<open>
  \<^verbatim>\<open>interface MessageDetails\<close>, without the resolver pair and the timer: resolving and
  rejecting are recorded as events by the handlers below.
\<close>

record 'f message_details =
  md_message :: "'f message"
  md_socket :: socket_with_id

text \<open>
  The fields of \<^verbatim>\<open>class Client\<close> that the modelled methods read or write.
  \<^verbatim>\<open>messageDetailsByMessageId\<close> is an object keyed by \<^verbatim>\<open>messageId.toString()\<close>; it is kept
  as an association list in ascending key order, which is the order \<^verbatim>\<open>Object.entries\<close>
  enumerates integer keys in. \<open>wire\<close> is not a field of the class: it logs, in order,
  every \<^verbatim>\<open>socket.write\<close> as the socket written to and the message encoded.
\<close>

record 'f client =
  messageId :: int
  connected :: bool
  socket :: "socket_with_id option"
  messageDetailsByMessageId :: "(int \<times> 'f message_details) list"
  wire :: "(nat \<times> 'f message) list"

text \<open>\<^verbatim>\<open>table[key] = details\<close> and \<^verbatim>\<open>delete table[key]\<close> on such an object.\<close>

fun table_set :: "int \<Rightarrow> 'a \<Rightarrow> (int \<times> 'a) list \<Rightarrow> (int \<times> 'a) list" where
  "table_set k v [] = [(k, v)]"
| "table_set k v ((k', v') # t) =
     (if k = k' then (k, v) # t
      else if k < k' then (k, v) # (k', v') # t
      else (k', v') # table_set k v t)"

definition table_delete :: "int \<Rightarrow> (int \<times> 'a) list \<Rightarrow> (int \<times> 'a) list" where
  "table_delete k t = filter (\<lambda>(k', v). k' \<noteq> k) t"

text \<open>A new client: \<^verbatim>\<open>messageId = 1\<close>, \<^verbatim>\<open>connected = false\<close>, no socket, an empty table.\<close>

definition new_client :: "'f client" where
  "new_client = \<lparr> messageId = 1, connected = False, socket = None,
                  messageDetailsByMessageId = [], wire = [] \<rparr>"

subsection \<open>Message ids (\<^verbatim>\<open>Client._nextMessageId\<close>)\<close>

text \<open>\<^verbatim>\<open>const MAX_MESSAGE_ID = 2 ** 31 - 1;\<close>\<close>

definition MAX_MESSAGE_ID :: int where
  "MAX_MESSAGE_ID = 2 ^ 31 - 1"

text \<open>
  \<^verbatim>\<open>this.messageId += 1; if (this.messageId >= MAX_MESSAGE_ID) { this.messageId = 1; }
  return this.messageId;\<close>
\<close>

definition nextMessageId :: "'f client \<Rightarrow> int \<times> 'f client" where
  "nextMessageId c =
     (let c1 = c\<lparr>messageId := messageId c + 1\<rparr>;
          c2 = (if messageId c1 \<ge> MAX_MESSAGE_ID then c1\<lparr>messageId := 1\<rparr> else c1)
      in (messageId c2, c2))"

text \<open>\<open>allocate n c\<close>: the ids returned by \<open>n\<close> calls in a row, and the client after them.\<close>

fun allocate :: "nat \<Rightarrow> 'f client \<Rightarrow> int list \<times> 'f client" where
  "allocate 0 c = ([], c)"
| "allocate (Suc n) c =
     (let (i, c1) = nextMessageId c; (is, c2) = allocate n c1 in (i # is, c2))"

subsection \<open>Sending (\<^verbatim>\<open>Client._send\<close>) and \<^verbatim>\<open>Client.unbind\<close>\<close>

text \<open>
  The synchronous part of \<^verbatim>\<open>_send\<close>: it throws without a connected socket, else it enters
  the message in the table under its id, with the current socket, and writes the
  encoded message to the socket (the encoders are not among the sources: the log keeps
  the message). The promise it returns is settled later, by a response, a socket event
  or the timer.
\<close>

definition send :: "'f message \<Rightarrow> 'f client \<Rightarrow> error + 'f client" where
  "send message c =
     (case socket c of
        None \<Rightarrow> Inl (Error ''Socket connection not established'')
      | Some s \<Rightarrow>
          if \<not> connected c then Inl (Error ''Socket connection not established'')
          else Inr (c\<lparr> messageDetailsByMessageId :=
                          table_set (message_messageId message)
                            \<lparr> md_message = message, md_socket = s \<rparr>
                            (messageDetailsByMessageId c),
                        wire := wire c @ [(sock_ref s, message)] \<rparr>))"

text \<open>
  \<^verbatim>\<open>unbind\<close>: returns at once when the client is not connected or has no socket; else it
  takes an id, sends an UnbindRequest and waits for the promise of \<^verbatim>\<open>_send\<close>, which the
  close handler resolves.
\<close>

definition unbind :: "'f client \<Rightarrow> unit outcome \<times> 'f client" where
  "unbind c =
     (if \<not> connected c \<or> socket c = None then (Resolved (), c)
      else
        let (i, c1) = nextMessageId c in
        case send (UnbindRequest i) c1 of
          Inl e \<Rightarrow> (Rejected e, c1)
        | Inr c2 \<Rightarrow> (Pending, c2))"

subsection \<open>The close handler (\<^verbatim>\<open>socketClose\<close> in \<^verbatim>\<open>Client._onConnect\<close>)\<close>

text \<open>What the handler does to the promise of a pending request, by table key.\<close>

datatype settle = Resolve int | Reject int error

text \<open>
  The loop over \<^verbatim>\<open>Object.entries(clientInstance.messageDetailsByMessageId)\<close>: the entries
  are a snapshot taken before the loop; the table and the events are threaded through.
\<close>

fun close_loop ::
  "socket_with_id \<Rightarrow> (int \<times> 'f message_details) list \<Rightarrow>
   (int \<times> 'f message_details) list \<times> settle list \<Rightarrow>
   (int \<times> 'f message_details) list \<times> settle list" where
  "close_loop this [] (table, events) = (table, events)"
| "close_loop this ((key, messageDetails) # entries) (table, events) =
     (if sock_id (md_socket messageDetails) = sock_id this then
        let event =
              (if is_UnbindRequest (md_message messageDetails) then Resolve key
               else Reject key (ConnectionClosed (constructor_name (md_message messageDetails))))
        in close_loop this entries (table_delete key table, events @ [event])
      else close_loop this entries (table, events))"

text \<open>
  \<^verbatim>\<open>socketClose\<close>, with \<open>this\<close> the socket that closes: when it is the client's socket the
  client is marked disconnected and forgets it; then the pending requests are cleaned up.
\<close>

definition socketClose :: "socket_with_id \<Rightarrow> 'f client \<Rightarrow> 'f client \<times> settle list" where
  "socketClose this c =
     (let c1 = (if map_option sock_ref (socket c) = Some (sock_ref this)
                then c\<lparr>connected := False, socket := None\<rparr> else c);
          (table, events) =
             close_loop this (messageDetailsByMessageId c1) (messageDetailsByMessageId c1, [])
      in (c1\<lparr>messageDetailsByMessageId := table\<rparr>, events))"

text \<open>
  For stating what the handler does: whether the socket of a table entry has the id of
  socket \<open>this\<close>, and how the handler settles an entry that it removes.
\<close>

definition owned_by :: "socket_with_id \<Rightarrow> int \<times> 'f message_details \<Rightarrow> bool" where
  "owned_by this e = (sock_id (md_socket (snd e)) = sock_id this)"

definition settle_of :: "int \<times> 'f message_details \<Rightarrow> settle" where
  "settle_of e =
     (if is_UnbindRequest (md_message (snd e)) then Resolve (fst e)
      else Reject (fst e) (ConnectionClosed (constructor_name (md_message (snd e)))))"

subsection \<open>Search (\<^verbatim>\<open>Client.search\<close>, \<^verbatim>\<open>Client._sendSearch\<close>)\<close>

text \<open>
  Modelled from the spec: \<^verbatim>\<open>MessageResponseStatus.Success\<close>. The enumeration is not among
  the sources; its members are the result codes of RFC 4511, and zero is success.
\<close>

definition Success :: int where
  "Success = 0"

text \<open>
  Modelled from the spec: \<^verbatim>\<open>MessageResponseStatus.SizeLimitExceeded\<close>, result code 4 of
  RFC 4511.
\<close>

definition SizeLimitExceeded :: int where
  "SizeLimitExceeded = 4"

text \<open>
  A \<^verbatim>\<open>SearchResponse\<close> as \<^verbatim>\<open>_send\<close> resolves with it: the entries and references that
  came under the same message id are already attached. \<open>'e\<close> is the type of a
  \<^verbatim>\<open>SearchEntry\<close>; a \<^verbatim>\<open>SearchReference\<close> is its list of URIs.
\<close>

record 'e search_response =
  rs_status :: int
  rs_errorMessage :: string
  rs_searchEntries :: "'e list"
  rs_searchReferences :: "string list list"
  rs_controls :: "control list option"

text \<open>\<^verbatim>\<open>interface SearchResult\<close>; \<open>'o\<close> is the type of an \<^verbatim>\<open>Entry\<close>.\<close>

record 'o search_result =
  searchEntries :: "'o list"
  searchReferences :: "string list"

text \<open>
  How the promise of one \<^verbatim>\<open>_send\<close> is settled: by the response, or by a rejection (a
  socket error or close, a parser error). A run of a search is given the list of these,
  one for each request it will send; when the list is used up the search waits.
\<close>

datatype 'e send_result = Responds "'e search_response" | Rejects error

text \<open>
  The objects that \<^verbatim>\<open>_sendSearch\<close> mutates: the request (its \<^verbatim>\<open>messageId\<close>), the result
  it appends to, and the Paged-Results control of the request (absent when
  \<^verbatim>\<open>pagedResultsControl\<close> is undefined; its \<^verbatim>\<open>value\<close> may be undefined). The control is
  the object that \<^verbatim>\<open>search\<close> pushed on the request's \<^verbatim>\<open>controls\<close>, so a new cookie is
  written to both.
\<close>

record ('f, 'o) search_objects =
  searchRequest :: "'f search_request"
  searchResult :: "'o search_result"
  pagedResultsControl :: "paged_value option option"

text \<open>JavaScript truthiness of an optional number.\<close>

fun truthy :: "int option \<Rightarrow> bool" where
  "truthy None = False"
| "truthy (Some n) = (n \<noteq> 0)"

text \<open>
  Lines 620-622, up to the \<^verbatim>\<open>await\<close>: the request takes the next message id and is sent.
\<close>

definition issue ::
  "('f, 'o) search_objects \<Rightarrow> 'f client \<Rightarrow>
   (error \<times> ('f, 'o) search_objects \<times> 'f client) + (('f, 'o) search_objects \<times> 'f client)" where
  "issue objs c =
     (let (i, c1) = nextMessageId c;
          objs1 = objs\<lparr>searchRequest := (searchRequest objs)\<lparr>sr_messageId := i\<rparr>\<rparr>
      in case send (SearchRequest (searchRequest objs1)) c1 of
           Inl e \<Rightarrow> Inl (e, objs1, c1)
         | Inr c2 \<Rightarrow> Inr (objs1, c2))"

text \<open>
  The handlers that settle a request remove its entry from the table
  (\<^verbatim>\<open>delete this.messageDetailsByMessageId[message.messageId.toString()]\<close>).
\<close>

definition settled :: "int \<Rightarrow> 'f client \<Rightarrow> 'f client" where
  "settled i c = c\<lparr>messageDetailsByMessageId := table_delete i (messageDetailsByMessageId c)\<rparr>"

text \<open>
  Lines 624-626: a status other than success throws, unless it is sizeLimitExceeded and
  the request has a truthy \<^verbatim>\<open>sizeLimit\<close>.
\<close>

definition check_status :: "'f search_request \<Rightarrow> 'e search_response \<Rightarrow> error option" where
  "check_status request result =
     (if rs_status result \<noteq> Success
         \<and> \<not> (rs_status result = SizeLimitExceeded \<and> truthy (sr_sizeLimit request))
      then Some (StatusError (rs_status result) (rs_errorMessage result))
      else None)"

text \<open>
  Lines 628-634: the entries, converted by \<^verbatim>\<open>SearchEntry.toObject\<close> (not among the
  sources, so a parameter), and the URIs of the references are appended to the result.
\<close>

definition collect ::
  "('e \<Rightarrow> string list option \<Rightarrow> string list option \<Rightarrow> 'o) \<Rightarrow>
   'f search_request \<Rightarrow> 'e search_response \<Rightarrow> 'o search_result \<Rightarrow> 'o search_result" where
  "collect toObject request result r =
     \<lparr> searchEntries = searchEntries r
          @ map (\<lambda>searchEntry. toObject searchEntry (sr_attributes request)
                                  (sr_explicitBufferAttributes request))
              (rs_searchEntries result),
       searchReferences = searchReferences r @ concat (rs_searchReferences result) \<rparr>"

text \<open>
  Lines 638-646: the first \<^verbatim>\<open>PagedResultsControl\<close> among \<^verbatim>\<open>result.controls || []\<close>, and the
  cookie of it when the control has a value with a cookie of non-zero length.
\<close>

fun pagedResultsFromResponse :: "control list \<Rightarrow> paged_value option option" where
  "pagedResultsFromResponse [] = None"
| "pagedResultsFromResponse (PagedResultsControl v # cs) = Some v"
| "pagedResultsFromResponse (OtherControl oid # cs) = pagedResultsFromResponse cs"

definition response_cookie :: "control list option \<Rightarrow> string option" where
  "response_cookie controls =
     (case pagedResultsFromResponse (case controls of None \<Rightarrow> [] | Some cs \<Rightarrow> cs) of
        Some (Some v) \<Rightarrow>
          (case cookie v of
             Some k \<Rightarrow> if length k \<noteq> 0 then Some k else None
           | None \<Rightarrow> None)
      | _ \<Rightarrow> None)"

text \<open>
  Lines 648-651: the request control keeps its value, or gets \<^verbatim>\<open>{ size: pageSize }\<close>, and
  takes the cookie of the response. The control is an element of the request's
  \<^verbatim>\<open>controls\<close>, the only \<^verbatim>\<open>PagedResultsControl\<close> there.
\<close>

definition with_cookie ::
  "int \<Rightarrow> string \<Rightarrow> ('f, 'o) search_objects \<Rightarrow> ('f, 'o) search_objects" where
  "with_cookie pageSize k objs =
     (let v0 = (case pagedResultsControl objs of
                  Some (Some v) \<Rightarrow> v
                | _ \<Rightarrow> \<lparr> size = pageSize, cookie = None \<rparr>);
          v = v0\<lparr>cookie := Some k\<rparr>;
          request = searchRequest objs
      in objs\<lparr> pagedResultsControl := Some (Some v),
               searchRequest := request\<lparr> sr_controls :=
                 map (\<lambda>c. if is_PagedResultsControl c then PagedResultsControl (Some v) else c)
                   (sr_controls request) \<rparr> \<rparr>)"

text \<open>
  Lines 637-653: whether another page is requested, and with which objects.
\<close>

definition next_page ::
  "bool \<Rightarrow> int \<Rightarrow> 'e search_response \<Rightarrow> ('f, 'o) search_objects \<Rightarrow>
   ('f, 'o) search_objects option" where
  "next_page paged pageSize result objs =
     (if paged \<and> (length (rs_searchEntries result) \<noteq> 0 \<or> length (rs_searchReferences result) \<noteq> 0)
         \<and> pagedResultsControl objs \<noteq> None
      then (case response_cookie (rs_controls result) of
              Some k \<Rightarrow> Some (with_cookie pageSize k objs)
            | None \<Rightarrow> None)
      else None)"

text \<open>
  \<^verbatim>\<open>_sendSearch\<close>. The recursion of the source is on the pages; here each page uses up
  one element of the list of settlements.
\<close>

fun sendSearch ::
  "('e \<Rightarrow> string list option \<Rightarrow> string list option \<Rightarrow> 'o) \<Rightarrow> bool \<Rightarrow> int \<Rightarrow>
   'e send_result list \<Rightarrow> ('f, 'o) search_objects \<Rightarrow> 'f client \<Rightarrow>
   unit outcome \<times> ('f, 'o) search_objects \<times> 'f client" where
  "sendSearch toObject paged pageSize [] objs c =
     (case issue objs c of
        Inl (e, objs1, c1) \<Rightarrow> (Rejected e, objs1, c1)
      | Inr (objs1, c2) \<Rightarrow> (Pending, objs1, c2))"
| "sendSearch toObject paged pageSize (Rejects err # rest) objs c =
     (case issue objs c of
        Inl (e, objs1, c1) \<Rightarrow> (Rejected e, objs1, c1)
      | Inr (objs1, c2) \<Rightarrow>
          (Rejected err, objs1, settled (sr_messageId (searchRequest objs1)) c2))"
| "sendSearch toObject paged pageSize (Responds result # rest) objs c =
     (case issue objs c of
        Inl (e, objs1, c1) \<Rightarrow> (Rejected e, objs1, c1)
      | Inr (objs1, c2) \<Rightarrow>
          let c3 = settled (sr_messageId (searchRequest objs1)) c2 in
          (case check_status (searchRequest objs1) result of
             Some e \<Rightarrow> (Rejected e, objs1, c3)
           | None \<Rightarrow>
               let objs2 = objs1\<lparr>searchResult :=
                             collect toObject (searchRequest objs1) result (searchResult objs1)\<rparr>
               in (case next_page paged pageSize result objs2 of
                     Some objs3 \<Rightarrow> sendSearch toObject paged pageSize rest objs3 c3
                   | None \<Rightarrow> (Resolved (), objs2, c3))))"

text \<open>The arguments of \<^verbatim>\<open>search\<close>.\<close>

datatype controls_arg = OneControl control | ControlArray "control list"

datatype paged_arg = PagedBoolean bool | PagedObject "int option"

datatype 'f filter_arg = FilterObject 'f | FilterString string

record 'f search_options =
  so_scope :: "scope option"
  so_returnAttributeValues :: "bool option"
  so_sizeLimit :: "int option"
  so_timeLimit :: "int option"
  so_paged :: "paged_arg option"
  so_filter :: "'f filter_arg option"
  so_attributes :: "string list option"
  so_explicitBufferAttributes :: "string list option"

text \<open>
  What a run of \<^verbatim>\<open>search\<close> takes from outside the modelled code: how \<^verbatim>\<open>_connect\<close> ends
  when it is called (with the new socket, or with an error and the socket field it
  leaves), the textual filter parser and the \<^verbatim>\<open>PresenceFilter\<close> constructor (they build
  filter classes that are not among the sources), \<^verbatim>\<open>SearchEntry.toObject\<close>, and the
  settlements of the requests sent.
\<close>

datatype connect_result = ConnectOk socket_with_id | ConnectFail error "socket_with_id option"

record ('f, 'e, 'o) world =
  w_connect :: connect_result
  w_parseString :: "string \<Rightarrow> error + 'f"
  w_PresenceFilter :: "string \<Rightarrow> 'f"
  w_toObject :: "'e \<Rightarrow> string list option \<Rightarrow> string list option \<Rightarrow> 'o"
  w_responses :: "'e send_result list"

text \<open>\<^verbatim>\<open>if (!this.connected) { await this._connect(); }\<close>\<close>

definition ensure_connected :: "connect_result \<Rightarrow> 'f client \<Rightarrow> (error \<times> 'f client) + 'f client" where
  "ensure_connected r c =
     (if \<not> connected c then
        (case r of
           ConnectOk s \<Rightarrow> Inr (c\<lparr>socket := Some s, connected := True\<rparr>)
         | ConnectFail e s \<Rightarrow> Inl (e, c\<lparr>socket := s\<rparr>))
      else Inr c)"

text \<open>Lines 531-546: the \<^verbatim>\<open>controls\<close> argument as a fresh array.\<close>

fun controls_list :: "controls_arg option \<Rightarrow> control list" where
  "controls_list (Some (ControlArray cs)) = cs"
| "controls_list (Some (OneControl x)) = [x]"
| "controls_list None = []"

text \<open>Lines 548-556.\<close>

definition page_size :: "'f search_options \<Rightarrow> int" where
  "page_size options =
     (let explicit = (case so_paged options of
                        Some (PagedObject (Some n)) \<Rightarrow> if n \<noteq> 0 then Some n else None
                      | _ \<Rightarrow> None)
      in case explicit of
           Some n \<Rightarrow> n
         | None \<Rightarrow>
             (case so_sizeLimit options of
                Some l \<Rightarrow> if l \<noteq> 0 \<and> l > 1 then l - 1 else 100
              | None \<Rightarrow> 100))"

text \<open>\<^verbatim>\<open>const shouldPage = !!options.paged;\<close>\<close>

fun shouldPage :: "paged_arg option \<Rightarrow> bool" where
  "shouldPage None = False"
| "shouldPage (Some (PagedBoolean b)) = b"
| "shouldPage (Some (PagedObject n)) = True"

text \<open>Lines 569-578; the empty string is falsy.\<close>

definition search_filter ::
  "('f, 'e, 'o) world \<Rightarrow> 'f filter_arg option \<Rightarrow> error + 'f" where
  "search_filter w f =
     (case f of
        Some (FilterString str) \<Rightarrow>
          if str = [] then Inr (w_PresenceFilter w ''objectclass'') else w_parseString w str
      | Some (FilterObject x) \<Rightarrow> Inr x
      | None \<Rightarrow> Inr (w_PresenceFilter w ''objectclass''))"

text \<open>
  Lines 558-596: the Paged-Results control of a paged search, pushed on the controls,
  the request and the empty result.
\<close>

definition new_search_objects ::
  "string \<Rightarrow> 'f search_options \<Rightarrow> controls_arg option \<Rightarrow> 'f \<Rightarrow> ('f, 'o) search_objects" where
  "new_search_objects baseDN options controls f =
     (let control = (if shouldPage (so_paged options)
                     then Some (Some \<lparr> size = page_size options, cookie = None \<rparr>) else None);
          controls1 = (case control of
                         Some v \<Rightarrow> controls_list controls @ [PagedResultsControl v]
                       | None \<Rightarrow> controls_list controls)
      in \<lparr> searchRequest =
             \<lparr> sr_messageId = - 1, sr_baseDN = baseDN, sr_scope = so_scope options,
               sr_filter = f, sr_attributes = so_attributes options,
               sr_explicitBufferAttributes = so_explicitBufferAttributes options,
               sr_returnAttributeValues = so_returnAttributeValues options,
               sr_sizeLimit = so_sizeLimit options,
               sr_timeLimit = so_timeLimit options, sr_controls = controls1 \<rparr>,
           searchResult = \<lparr> searchEntries = [], searchReferences = [] \<rparr>,
           pagedResultsControl = control \<rparr>)"

definition search ::
  "('f, 'e, 'o) world \<Rightarrow> 'f client \<Rightarrow> string \<Rightarrow> 'f search_options \<Rightarrow> controls_arg option \<Rightarrow>
   'o search_result outcome \<times> 'f client" where
  "search w c baseDN options controls =
     (case ensure_connected (w_connect w) c of
        Inl (e, c1) \<Rightarrow> (Rejected e, c1)
      | Inr c1 \<Rightarrow>
          if list_ex is_PagedResultsControl (controls_list controls)
          then (Rejected (Error ''Should not specify PagedResultsControl''), c1)
          else
            (case search_filter w (so_filter options) of
               Inl e \<Rightarrow> (Rejected e, c1)
             | Inr f \<Rightarrow>
                 (case sendSearch (w_toObject w) (shouldPage (so_paged options))
                         (page_size options) (w_responses w)
                         (new_search_objects baseDN options controls f) c1 of
                    (Resolved u, objs1, c2) \<Rightarrow> (Resolved (searchResult objs1), c2)
                  | (Rejected e, objs1, c2) \<Rightarrow> (Rejected e, c2)
                  | (Pending, objs1, c2) \<Rightarrow> (Pending, c2))))"

text \<open>The request and the client right after a request has been issued on a connection.\<close>

definition issued_request :: "('f, 'o) search_objects \<Rightarrow> 'f client \<Rightarrow> 'f search_request" where
  "issued_request objs c = (searchRequest objs)\<lparr>sr_messageId := fst (nextMessageId c)\<rparr>"

definition issued_client ::
  "socket_with_id \<Rightarrow> ('f, 'o) search_objects \<Rightarrow> 'f client \<Rightarrow> 'f client" where
  "issued_client s objs c =
     (snd (nextMessageId c))
       \<lparr> messageDetailsByMessageId :=
            table_set (fst (nextMessageId c))
              \<lparr> md_message = SearchRequest (issued_request objs c), md_socket = s \<rparr>
              (messageDetailsByMessageId c),
         wire := wire c @ [(sock_ref s, SearchRequest (issued_request objs c))] \<rparr>"

text \<open>The objects and the client after the response to an issued request is taken in.\<close>

definition page_objects ::
  "('e \<Rightarrow> string list option \<Rightarrow> string list option \<Rightarrow> 'o) \<Rightarrow> 'e search_response \<Rightarrow>
   ('f, 'o) search_objects \<Rightarrow> 'f client \<Rightarrow> ('f, 'o) search_objects" where
  "page_objects toObject result objs c =
     objs\<lparr> searchRequest := issued_request objs c,
           searchResult := collect toObject (issued_request objs c) result (searchResult objs) \<rparr>"

definition page_client ::
  "socket_with_id \<Rightarrow> ('f, 'o) search_objects \<Rightarrow> 'f client \<Rightarrow> 'f client" where
  "page_client s objs c = settled (fst (nextMessageId c)) (issued_client s objs c)"

subsection \<open>Concrete runs\<close>

text \<open>
  A connected client, and the surroundings of a search in which a filter is its text and
  an entry is its name; they are the inputs at which the theorems below are exercised.
\<close>

definition a_socket :: socket_with_id where
  "a_socket = \<lparr> sock_ref = 0, sock_id = Some ''6f1c'' \<rparr>"

definition a_client :: "string client" where
  "a_client = new_client\<lparr> connected := True, socket := Some a_socket \<rparr>"

definition a_world :: "string send_result list \<Rightarrow> (string, string, string) world" where
  "a_world responses =
     \<lparr> w_connect = ConnectOk a_socket, w_parseString = (\<lambda>str. Inr str),
       w_PresenceFilter = (\<lambda>a. a @ ''=*''), w_toObject = (\<lambda>e a b. e),
       w_responses = responses \<rparr>"

definition some_options :: "int option \<Rightarrow> paged_arg option \<Rightarrow> string search_options" where
  "some_options sizeLimit paged =
     \<lparr> so_scope = None, so_returnAttributeValues = None, so_sizeLimit = sizeLimit,
       so_timeLimit = None, so_paged = paged, so_filter = None, so_attributes = None,
       so_explicitBufferAttributes = None \<rparr>"

definition a_response ::
  "int \<Rightarrow> string list \<Rightarrow> control list option \<Rightarrow> string search_response" where
  "a_response st entries controls =
     \<lparr> rs_status = st, rs_errorMessage = ''message'', rs_searchEntries = entries,
       rs_searchReferences = [], rs_controls = controls \<rparr>"

text \<open>
  Pages of a paged search: one entry and the cookie \<open>abc\<close>; one entry and an empty cookie;
  no entry, no reference and the cookie \<open>abc\<close>.
\<close>

definition first_page :: "string search_response" where
  "first_page = a_response 0 [''cn=a'']
                  (Some [PagedResultsControl (Some \<lparr> size = 0, cookie = Some ''abc'' \<rparr>)])"

definition last_page :: "string search_response" where
  "last_page = a_response 0 [''cn=b'']
                 (Some [PagedResultsControl (Some \<lparr> size = 0, cookie = Some [] \<rparr>)])"

definition empty_page :: "string search_response" where
  "empty_page = a_response 0 []
                  (Some [PagedResultsControl (Some \<lparr> size = 0, cookie = Some ''abc'' \<rparr>)])"

definition paged_objects :: "(string, string) search_objects" where
  "paged_objects = new_search_objects ''dc=example''
                     (some_options None (Some (PagedBoolean True))) None ''objectclass=*''"

text \<open>The objects of a paged search with the size limit 3.\<close>

definition capped_objects :: "(string, string) search_objects" where
  "capped_objects = new_search_objects ''dc=example''
                      (some_options (Some 3) (Some (PagedBoolean True))) None ''objectclass=*''"

subsection \<open>Strings and Buffers\<close>

text \<open>
  A string is the list of the bytes of its UTF-8 form, which every string without an
  unpaired surrogate has, and a Buffer holds any bytes. The UTF-8 encoder of the BER
  writer is then the identity, and \<^verbatim>\<open>buffer.toString('utf8')\<close> is the decoder below.
  Strings with an unpaired surrogate, which the encoder writes as U+FFFD, are not
  represented.

  \<^verbatim>\<open>String.prototype.toLowerCase\<close> follows the case mappings of Unicode, which are data of
  the JavaScript engine. The definitions that call it take it as the parameter
  \<open>toLowerCase\<close>, and what is proved of them holds for every function in its place.
\<close>

text \<open>
  On a string of ASCII characters \<^verbatim>\<open>toLowerCase\<close> changes the letters A to Z and nothing
  else. \<open>ascii_toLowerCase\<close> is that function; the examples, whose strings are all ASCII,
  are run with it, and it is the folding of case in the relation that the specification
  states for the names of an RDN.
\<close>

definition lower_char :: "char \<Rightarrow> char" where
  "lower_char ch =
     (let n = (of_char ch :: nat) in if 65 \<le> n \<and> n \<le> 90 then char_of (n + 32) else ch)"

definition ascii_toLowerCase :: "string \<Rightarrow> string" where
  "ascii_toLowerCase str = map lower_char str"

text \<open>
  \<^verbatim>\<open>buffer.toString('utf8')\<close> of Node.js decodes UTF-8 as the Encoding Standard does: a
  well-formed sequence of bytes is a character, and every maximal part of an ill-formed
  sequence becomes U+FFFD, whose UTF-8 form is \<open>replacement\<close>. On the bytes of strings
  that is: well-formed sequences are kept and the others are replaced.

  \<open>utf8_lead b\<close> is defined for the first byte of a sequence of two, three or four bytes:
  it gives the number of bytes that follow and the range of the first of them (Table 3-7
  of the Unicode Standard; the later ones are between 0x80 and 0xBF).
  \<open>continuation n lo hi bytes\<close> counts how many of the \<open>n\<close> bytes that have to follow are
  there.
\<close>

definition replacement :: "char list" where
  "replacement = [char_of (0xEF :: nat), char_of (0xBF :: nat), char_of (0xBD :: nat)]"

definition utf8_lead :: "nat \<Rightarrow> (nat \<times> nat \<times> nat) option" where
  "utf8_lead b =
     (if 0xC2 \<le> b \<and> b \<le> 0xDF then Some (1, 0x80, 0xBF)
      else if b = 0xE0 then Some (2, 0xA0, 0xBF)
      else if b = 0xED then Some (2, 0x80, 0x9F)
      else if 0xE1 \<le> b \<and> b \<le> 0xEF then Some (2, 0x80, 0xBF)
      else if b = 0xF0 then Some (3, 0x90, 0xBF)
      else if 0xF1 \<le> b \<and> b \<le> 0xF3 then Some (3, 0x80, 0xBF)
      else if b = 0xF4 then Some (3, 0x80, 0x8F)
      else None)"

fun continuation :: "nat \<Rightarrow> nat \<Rightarrow> nat \<Rightarrow> char list \<Rightarrow> nat" where
  "continuation 0 lo hi bytes = 0"
| "continuation (Suc n) lo hi [] = 0"
| "continuation (Suc n) lo hi (c # cs) =
     (if lo \<le> of_char c \<and> of_char c \<le> hi then Suc (continuation n 0x80 0xBF cs) else 0)"

function toString_utf8 :: "char list \<Rightarrow> string" where
  "toString_utf8 [] = []"
| "toString_utf8 (c # cs) =
     (if of_char c < (0x80 :: nat) then c # toString_utf8 cs
      else
        (case utf8_lead (of_char c) of
           None \<Rightarrow> replacement @ toString_utf8 cs
         | Some (n, lo, hi) \<Rightarrow>
             if continuation n lo hi cs = n then c # take n cs @ toString_utf8 (drop n cs)
             else replacement @ toString_utf8 (drop (continuation n lo hi cs) cs)))"
  by pat_completeness auto
termination
  by (relation "measure length") simp_all

text \<open>
  The UTF-8 form of a character, by its code point, and of a list of them. The code
  points of characters are the scalar values: all up to 0x10FFFF but the surrogates.
\<close>

definition utf8_bytes :: "nat \<Rightarrow> char list" where
  "utf8_bytes u =
     (if u < 0x80 then [char_of u]
      else if u < 0x800 then [char_of (0xC0 + u div 64), char_of (0x80 + u mod 64)]
      else if u < 0x10000
        then [char_of (0xE0 + u div 4096), char_of (0x80 + u div 64 mod 64),
              char_of (0x80 + u mod 64)]
      else [char_of (0xF0 + u div 262144), char_of (0x80 + u div 4096 mod 64),
            char_of (0x80 + u div 64 mod 64), char_of (0x80 + u mod 64)])"

definition scalar_value :: "nat \<Rightarrow> bool" where
  "scalar_value u = (u < 0xD800 \<or> (0xE000 \<le> u \<and> u < 0x110000))"

definition utf8 :: "nat list \<Rightarrow> string" where
  "utf8 us = concat (map utf8_bytes us)"

text \<open>
  The value of an equality filter is \<^verbatim>\<open>Buffer | string\<close>. A Buffer is an object: it has
  an identity, which is what \<^verbatim>\<open>===\<close> compares, and its bytes. \<open>Null\<close> is what the parser
  leaves in the field when the input ends early.
\<close>

datatype js_value = Str string | Buf nat "char list" | Null

subsection \<open>Filters (\<^verbatim>\<open>AndFilter.ts\<close>, \<^verbatim>\<open>OrFilter.js\<close>, \<^verbatim>\<open>EqualityFilter.ts\<close>)\<close>

text \<open>
  The filter classes that the sources define or build, with their fields: \<^verbatim>\<open>AndFilter\<close>,
  \<^verbatim>\<open>OrFilter\<close> and \<^verbatim>\<open>EqualityFilter\<close> are among the sources, and \<^verbatim>\<open>FilterParser.parse\<close>
  builds a \<^verbatim>\<open>NotFilter\<close> from the filter inside it (\<^verbatim>\<open>new NotFilter({ filter })\<close>).
\<close>

datatype filter =
    AndFilter "filter list"
  | OrFilter "filter list"
  | NotFilter filter
  | EqualityFilter string js_value

text \<open>An object to check: its own properties in order, each a string or a Buffer.\<close>

type_synonym entry = "(string \<times> js_value) list"

text \<open>
  \<^verbatim>\<open>EqualityFilter.matches\<close>. \<^verbatim>\<open>Filter.getObjectValue\<close> belongs to the base class, which is
  not among the sources: it is the parameter \<open>getObjectValue\<close>, and \<open>None\<close> is its
  \<^verbatim>\<open>undefined\<close>. Comparing a string with a Buffer by \<^verbatim>\<open>===\<close> is false, and calling
  \<^verbatim>\<open>toLowerCase\<close> on a Buffer or on null is a TypeError.
\<close>

definition EqualityFilter_matches ::
  "(entry \<Rightarrow> string \<Rightarrow> bool \<Rightarrow> js_value option) \<Rightarrow> (string \<Rightarrow> string) \<Rightarrow>
   string \<Rightarrow> js_value \<Rightarrow> entry \<Rightarrow> bool \<Rightarrow> error + bool" where
  "EqualityFilter_matches getObjectValue toLowerCase attribute val objectToCheck
     strictAttributeCase =
     (case getObjectValue objectToCheck attribute strictAttributeCase of
        None \<Rightarrow> Inr False
      | Some objectToCheckValue \<Rightarrow>
          (case (val, objectToCheckValue) of
             (Buf i bytes, Buf j bytes') \<Rightarrow> Inr (i = j)
           | _ \<Rightarrow>
               let stringValue = (case val of
                                    Buf i bytes \<Rightarrow> Str (toString_utf8 bytes)
                                  | v \<Rightarrow> v)
               in if strictAttributeCase then
                    Inr (case (stringValue, objectToCheckValue) of
                           (Str x, Str y) \<Rightarrow> x = y
                         | (Null, Null) \<Rightarrow> True
                         | _ \<Rightarrow> False)
                  else
                    (case (stringValue, objectToCheckValue) of
                       (Str x, Str y) \<Rightarrow> Inr (toLowerCase x = toLowerCase y)
                     | _ \<Rightarrow> Inl (TypeError ''toLowerCase is not a function''))))"

text \<open>
  Modelled from the spec: \<^verbatim>\<open>NotFilter.matches\<close>, of a class that is not among the sources.
  A Not filter matches an entry when its child does not; \<open>inner\<close> is the result of the
  child.
\<close>

definition NotFilter_matches :: "error + bool \<Rightarrow> error + bool" where
  "NotFilter_matches inner = (case inner of Inl e \<Rightarrow> Inl e | Inr b \<Rightarrow> Inr (\<not> b))"

text \<open>
  \<^verbatim>\<open>matches\<close> of the classes; \<open>and_loop\<close> and \<open>or_loop\<close> are the \<^verbatim>\<open>for\<close> loops of
  \<^verbatim>\<open>AndFilter.matches\<close> and \<^verbatim>\<open>OrFilter.matches\<close>.
\<close>

fun matches ::
      "(entry \<Rightarrow> string \<Rightarrow> bool \<Rightarrow> js_value option) \<Rightarrow> (string \<Rightarrow> string) \<Rightarrow> filter \<Rightarrow>
       entry \<Rightarrow> bool \<Rightarrow> error + bool"
  and and_loop ::
      "(entry \<Rightarrow> string \<Rightarrow> bool \<Rightarrow> js_value option) \<Rightarrow> (string \<Rightarrow> string) \<Rightarrow> filter list \<Rightarrow>
       entry \<Rightarrow> bool \<Rightarrow> error + bool"
  and or_loop ::
      "(entry \<Rightarrow> string \<Rightarrow> bool \<Rightarrow> js_value option) \<Rightarrow> (string \<Rightarrow> string) \<Rightarrow> filter list \<Rightarrow>
       entry \<Rightarrow> bool \<Rightarrow> error + bool" where
  "matches g toLowerCase (AndFilter filters) objectToCheck strictAttributeCase =
     (if length filters = 0 then Inr True
      else and_loop g toLowerCase filters objectToCheck strictAttributeCase)"
| "matches g toLowerCase (OrFilter filters) objectToCheck strictAttributeCase =
     (if length filters = 0 then Inr True
      else or_loop g toLowerCase filters objectToCheck strictAttributeCase)"
| "matches g toLowerCase (NotFilter f) objectToCheck strictAttributeCase =
     NotFilter_matches (matches g toLowerCase f objectToCheck strictAttributeCase)"
| "matches g toLowerCase (EqualityFilter attribute val) objectToCheck strictAttributeCase =
     EqualityFilter_matches g toLowerCase attribute val objectToCheck strictAttributeCase"
| "and_loop g toLowerCase [] objectToCheck strictAttributeCase = Inr True"
| "and_loop g toLowerCase (f # filters) objectToCheck strictAttributeCase =
     (case matches g toLowerCase f objectToCheck strictAttributeCase of
        Inl e \<Rightarrow> Inl e
      | Inr b \<Rightarrow> if \<not> b then Inr False
                 else and_loop g toLowerCase filters objectToCheck strictAttributeCase)"
| "or_loop g toLowerCase [] objectToCheck strictAttributeCase = Inr False"
| "or_loop g toLowerCase (f # filters) objectToCheck strictAttributeCase =
     (case matches g toLowerCase f objectToCheck strictAttributeCase of
        Inl e \<Rightarrow> Inl e
      | Inr b \<Rightarrow> if b then Inr True
                 else or_loop g toLowerCase filters objectToCheck strictAttributeCase)"

text \<open>The plain lookup of an own property, as a \<open>getObjectValue\<close> to run examples with.\<close>

definition own_property :: "entry \<Rightarrow> string \<Rightarrow> bool \<Rightarrow> js_value option" where
  "own_property objectToCheck key strictAttributeCase = map_of objectToCheck key"

subsection \<open>The BER primitive\<close>

text \<open>
  The BER reader and writer are an external package (\<^verbatim>\<open>asn1\<close>), not part of the
  repository. The specification assumes them as a primitive that reads and writes
  tag-length-value triples in the definite-length form of X.690, with a reader that
  exposes the current offset and the length of the enclosing sequence; the definitions
  of this subsection model that primitive.
\<close>

text \<open>
  Modelled from the spec: the reader, a byte buffer with the current offset and the
  length of the value whose header was read last.
\<close>

record reader =
  buf :: "char list"
  offset :: nat
  len :: nat

text \<open>Modelled from the spec: the universal tag of an OCTET STRING, \<^verbatim>\<open>Ber.OctetString\<close>.\<close>

definition OctetString :: nat where
  "OctetString = 4"

text \<open>
  Modelled from the spec: the byte under the offset, or \<open>None\<close> at the end of the buffer.
\<close>

definition peek :: "reader \<Rightarrow> nat option" where
  "peek r = (if offset r < length (buf r) then Some (of_char (buf r ! offset r)) else None)"

text \<open>
  Modelled from the spec: the length octets at \<open>off\<close>, which are one octet below 128, or
  \<open>0x80 + n\<close> followed by \<open>n\<close> octets, most significant first, for \<open>n\<close> from 1 to 4. The
  result is the offset behind them, with the length stored in the reader; \<open>None\<close> when
  the buffer ends before.
\<close>

definition readLength :: "nat \<Rightarrow> reader \<Rightarrow> error + (nat \<times> reader) option" where
  "readLength off r =
     (if off \<ge> length (buf r) then Inr None
      else
        let lenB = (of_char (buf r ! off) :: nat) in
        if lenB \<ge> 128 then
          let n = lenB - 128 in
          if n = 0 then Inl (Error ''Indefinite length not supported'')
          else if n > 4 then Inl (Error ''encoding too long'')
          else if length (buf r) - (off + 1) < n then Inr None
          else Inr (Some (off + 1 + n,
                 r\<lparr>len := foldl (\<lambda>a b. a * 256 + of_char b) 0 (take n (drop (off + 1) (buf r)))\<rparr>))
        else Inr (Some (off + 1, r\<lparr>len := lenB\<rparr>)))"

text \<open>
  Modelled from the spec: \<^verbatim>\<open>readSequence()\<close> returns the tag under the offset; the offset
  moves behind the header and the length of the sequence is stored. \<open>None\<close> is the
  \<^verbatim>\<open>null\<close> of an incomplete header.
\<close>

definition readSequence :: "reader \<Rightarrow> error + (nat option \<times> reader)" where
  "readSequence r =
     (case peek r of
        None \<Rightarrow> Inr (None, r)
      | Some seq \<Rightarrow>
          (case readLength (offset r + 1) r of
             Inl e \<Rightarrow> Inl e
           | Inr None \<Rightarrow> Inr (None, r)
           | Inr (Some (off, r1)) \<Rightarrow> Inr (Some seq, r1\<lparr>offset := off\<rparr>)))"

text \<open>
  Modelled from the spec: \<^verbatim>\<open>readString()\<close> returns the octet string under the offset as
  a string; another tag is an error, and an incomplete value is \<^verbatim>\<open>null\<close>.
\<close>

definition readString :: "reader \<Rightarrow> error + (string option \<times> reader)" where
  "readString r =
     (case peek r of
        None \<Rightarrow> Inr (None, r)
      | Some b \<Rightarrow>
          if b \<noteq> OctetString then Inl (Error ''Expected 0x4'')
          else
            (case readLength (offset r + 1) r of
               Inl e \<Rightarrow> Inl e
             | Inr None \<Rightarrow> Inr (None, r)
             | Inr (Some (off, r1)) \<Rightarrow>
                 if len r1 > length (buf r1) - off then Inr (None, r1)
                 else if len r1 = 0 then Inr (Some [], r1\<lparr>offset := off\<rparr>)
                 else Inr (Some (toString_utf8 (take (len r1) (drop off (buf r1)))),
                           r1\<lparr>offset := off + len r1\<rparr>)))"





subsection \<open>Filters in BER\<close>

text \<open>
  Modelled from the spec: the members of the enumeration \<^verbatim>\<open>SearchFilter\<close>, which is not
  among the sources. They are the context tags of the \<^verbatim>\<open>Filter\<close> choice of RFC 4511,
  whose numbers the comment above \<^verbatim>\<open>FilterParser.parse\<close> lists; \<open>present\<close> is primitive
  and the others are constructed.
\<close>

definition SearchFilter_and :: nat where "SearchFilter_and = 0xa0"
definition SearchFilter_or :: nat where "SearchFilter_or = 0xa1"
definition SearchFilter_not :: nat where "SearchFilter_not = 0xa2"
definition SearchFilter_equalityMatch :: nat where "SearchFilter_equalityMatch = 0xa3"
definition SearchFilter_substrings :: nat where "SearchFilter_substrings = 0xa4"
definition SearchFilter_greaterOrEqual :: nat where "SearchFilter_greaterOrEqual = 0xa5"
definition SearchFilter_lessOrEqual :: nat where "SearchFilter_lessOrEqual = 0xa6"
definition SearchFilter_present :: nat where "SearchFilter_present = 0x87"
definition SearchFilter_approxMatch :: nat where "SearchFilter_approxMatch = 0xa8"
definition SearchFilter_extensibleMatch :: nat where "SearchFilter_extensibleMatch = 0xa9"




text \<open>
  \<^verbatim>\<open>EqualityFilter.parseFilter\<close>: the attribute is read and lowercased (the empty string
  for \<^verbatim>\<open>null\<close>), the value is read, and lowercased when the attribute is \<open>objectclass\<close>.
\<close>

definition EqualityFilter_parseFilter ::
  "(string \<Rightarrow> string) \<Rightarrow> reader \<Rightarrow> error + (filter \<times> reader)" where
  "EqualityFilter_parseFilter toLowerCase r =
     (case readString r of
        Inl e \<Rightarrow> Inl e
      | Inr (a, r1) \<Rightarrow>
          let attribute = toLowerCase (case a of None \<Rightarrow> [] | Some str \<Rightarrow> str) in
          (case readString r1 of
             Inl e \<Rightarrow> Inl e
           | Inr (v, r2) \<Rightarrow>
               if attribute = ''objectclass'' then
                 (case v of
                    None \<Rightarrow> Inl (TypeError ''Cannot read properties of null'')
                  | Some str \<Rightarrow> Inr (EqualityFilter attribute (Str (toLowerCase str)), r2))
               else
                 Inr (EqualityFilter attribute (case v of None \<Rightarrow> Null | Some str \<Rightarrow> Str str),
                      r2)))"

text \<open>A number in a template string: its decimal digits.\<close>

function decimal :: "nat \<Rightarrow> string" where
  "decimal n =
     (if n < 10 then [char_of (48 + n)] else decimal (n div 10) @ [char_of (48 + n mod 10)])"
  by pat_completeness auto
termination
  by (relation "measure id") simp_all

declare decimal.simps [simp del]

text \<open>
  \<^verbatim>\<open>FilterParser.parse\<close> and \<^verbatim>\<open>FilterParser._parseSet\<close>. The two call each other, and the
  loop of \<^verbatim>\<open>_parseSet\<close> runs while the offset is before the end of the set: the first
  argument bounds the depth of the calls, and \<open>None\<close> says that it was too small. The
  branches for the filter classes whose \<^verbatim>\<open>parseFilter\<close> is not among the sources end the
  run with \<open>NotAmongSources\<close>.
\<close>

fun parse :: "(string \<Rightarrow> string) \<Rightarrow> nat \<Rightarrow> reader \<Rightarrow> (error + (filter \<times> reader)) option"
  and parseSet ::
      "(string \<Rightarrow> string) \<Rightarrow> nat \<Rightarrow> nat \<Rightarrow> filter list \<Rightarrow> reader \<Rightarrow>
       (error + (filter list \<times> reader)) option"
  where
  "parse toLowerCase 0 reader = None"
| "parse toLowerCase (Suc n) reader =
     (case readSequence reader of
        Inl e \<Rightarrow> Some (Inl e)
      | Inr (None, r1) \<Rightarrow> Some (Inl (Error ''Invalid search filter type: 0x<null>''))
      | Inr (Some type, r1) \<Rightarrow>
          if type = SearchFilter_and then
            (case parseSet toLowerCase n (offset r1 + len r1) [] r1 of
               None \<Rightarrow> None
             | Some (Inl e) \<Rightarrow> Some (Inl e)
             | Some (Inr (andFilters, r2)) \<Rightarrow> Some (Inr (AndFilter andFilters, r2)))
          else if type = SearchFilter_approxMatch then Some (Inl (NotAmongSources ''ApproximateFilter''))
          else if type = SearchFilter_equalityMatch
            then Some (EqualityFilter_parseFilter toLowerCase r1)
          else if type = SearchFilter_extensibleMatch then Some (Inl (NotAmongSources ''ExtensibleFilter''))
          else if type = SearchFilter_greaterOrEqual
            then Some (Inl (NotAmongSources ''GreaterThanEqualsFilter''))
          else if type = SearchFilter_lessOrEqual
            then Some (Inl (NotAmongSources ''LessThanEqualsFilter''))
          else if type = SearchFilter_not then
            (case parse toLowerCase n r1 of
               None \<Rightarrow> None
             | Some (Inl e) \<Rightarrow> Some (Inl e)
             | Some (Inr (innerFilter, r2)) \<Rightarrow> Some (Inr (NotFilter innerFilter, r2)))
          else if type = SearchFilter_or then
            (case parseSet toLowerCase n (offset r1 + len r1) [] r1 of
               None \<Rightarrow> None
             | Some (Inl e) \<Rightarrow> Some (Inl e)
             | Some (Inr (orFilters, r2)) \<Rightarrow> Some (Inr (OrFilter orFilters, r2)))
          else if type = SearchFilter_present then Some (Inl (NotAmongSources ''PresenceFilter''))
          else if type = SearchFilter_substrings then Some (Inl (NotAmongSources ''SubstringFilter''))
          else Some (Inl (Error (''Invalid search filter type: 0x''
                                   @ (if type = 0 then ''<null>'' else decimal type)))))"
| "parseSet toLowerCase 0 end filters reader = None"
| "parseSet toLowerCase (Suc n) end filters reader =
     (if offset reader < end then
        (case parse toLowerCase n reader of
           None \<Rightarrow> None
         | Some (Inl e) \<Rightarrow> Some (Inl e)
         | Some (Inr (f, r1)) \<Rightarrow> parseSet toLowerCase n end (filters @ [f]) r1)
      else Some (Inr (filters, reader)))"

text \<open>
  \<^verbatim>\<open>FilterParser.parse(new BerReader(bytes))\<close>: every call of \<open>parse\<close> that returns a
  filter has read two bytes at least, so the length of the input bounds the depth.
\<close>

definition parseBinary :: "(string \<Rightarrow> string) \<Rightarrow> char list \<Rightarrow> (error + filter) option" where
  "parseBinary toLowerCase bytes =
     map_option (map_sum id fst)
       (parse toLowerCase (Suc (length bytes)) \<lparr> buf = bytes, offset = 0, len = 0 \<rparr>)"

text \<open>
  What the parser makes of a filter that was written. The nodes are kept; in an equality
  filter the attribute is what \<^verbatim>\<open>readString\<close> decodes of its bytes, in lower case, and the
  value is the string that \<^verbatim>\<open>readString\<close> decodes of the bytes written for it (the bytes of
  a Buffer, or of a string), in lower case under \<open>objectclass\<close>.
\<close>

fun as_parsed :: "(string \<Rightarrow> string) \<Rightarrow> filter \<Rightarrow> filter" where
  "as_parsed toLowerCase (AndFilter filters) = AndFilter (map (as_parsed toLowerCase) filters)"
| "as_parsed toLowerCase (OrFilter filters) = OrFilter (map (as_parsed toLowerCase) filters)"
| "as_parsed toLowerCase (NotFilter f) = NotFilter (as_parsed toLowerCase f)"
| "as_parsed toLowerCase (EqualityFilter attribute val) =
     (let a = toLowerCase (toString_utf8 attribute);
          str = toString_utf8 (case val of Str s \<Rightarrow> s | Buf i bytes \<Rightarrow> bytes | Null \<Rightarrow> [])
      in EqualityFilter a (Str (if a = ''objectclass'' then toLowerCase str else str)))"


subsection \<open>Relative distinguished names (\<^verbatim>\<open>dist/dn/RDN.js\<close>)\<close>

text \<open>
  \<^verbatim>\<open>this.attrs\<close> is an object from attribute names to values: an association list of its
  own properties, in which no name occurs twice.
\<close>

record rdn =
  attrs :: "(string \<times> string) list"

text \<open>
  \<^verbatim>\<open>set(name, value) { this.attrs[name] = value; return this; }\<close>. \<open>assign\<close> is the
  assignment to a property other than \<^verbatim>\<open>__proto__\<close>; assigning a string to \<^verbatim>\<open>__proto__\<close>
  leaves a plain object as it is.
\<close>

fun assign :: "string \<Rightarrow> string \<Rightarrow> (string \<times> string) list \<Rightarrow> (string \<times> string) list" where
  "assign name val [] = [(name, val)]"
| "assign name val ((k, v) # kvs) =
     (if k = name then (k, val) # kvs else (k, v) # assign name val kvs)"

definition RDN_set :: "string \<Rightarrow> string \<Rightarrow> rdn \<Rightarrow> rdn" where
  "RDN_set name val this =
     (if name = ''__proto__'' then this else this\<lparr>attrs := assign name val (attrs this)\<rparr>)"

text \<open>
  The loop of \<^verbatim>\<open>equals\<close> over the index \<open>i\<close>, on what is left of the two sorted key
  arrays; past the end of \<^verbatim>\<open>otherKeys\<close> the element is undefined and differs from a key.
\<close>

fun equals_loop :: "string list \<Rightarrow> string list \<Rightarrow> rdn \<Rightarrow> rdn \<Rightarrow> bool" where
  "equals_loop [] otherKeys this other = True"
| "equals_loop (k # ourKeys) [] this other = False"
| "equals_loop (k # ourKeys) (k' # otherKeys) this other =
     (if k \<noteq> k' then False
      else if map_of (attrs this) k \<noteq> map_of (attrs other) k then False
      else equals_loop ourKeys otherKeys this other)"

text \<open>
  \<^verbatim>\<open>equals\<close>: the key arrays must have the same length; they are sorted (by code units,
  which is the order of the byte lists) and compared place by place, with the values.
\<close>

definition equals :: "rdn \<Rightarrow> rdn \<Rightarrow> bool" where
  "equals this other =
     (let ourKeys = map fst (attrs this);
          otherKeys = map fst (attrs other)
      in if length ourKeys \<noteq> length otherKeys then False
         else equals_loop (sort ourKeys) (sort otherKeys) this other)"

text \<open>
  The relation that the specification states for \<open>equals\<close>: the same pairs of name and
  value, where names are compared without regard to case and values with it.
\<close>

definition same_pairs_ignoring_name_case :: "rdn \<Rightarrow> rdn \<Rightarrow> bool" where
  "same_pairs_ignoring_name_case this other =
     (set (map (\<lambda>(k, v). (ascii_toLowerCase k, v)) (attrs this))
      = set (map (\<lambda>(k, v). (ascii_toLowerCase k, v)) (attrs other)))"

section \<open>Properties\<close>

subsection \<open>Message ids\<close>

lemma nextMessageId_plain:
  "1 \<le> messageId c \<Longrightarrow> messageId c + 1 < MAX_MESSAGE_ID \<Longrightarrow>
   nextMessageId c = (messageId c + 1, c\<lparr>messageId := messageId c + 1\<rparr>)"
  by (simp add: nextMessageId_def Let_def)

lemma nextMessageId_wrap:
  "messageId c + 1 = MAX_MESSAGE_ID \<Longrightarrow> nextMessageId c = (1, c\<lparr>messageId := 1\<rparr>)"
  by (simp add: nextMessageId_def Let_def)

lemma allocate_run:
  "1 \<le> messageId c \<Longrightarrow> messageId c + int n < MAX_MESSAGE_ID \<Longrightarrow>
   allocate n c = (map (\<lambda>k. messageId c + 1 + int k) [0..<n],
                   c\<lparr>messageId := messageId c + int n\<rparr>)"
proof (induction n arbitrary: c)
  case 0
  then show ?case by simp
next
  case (Suc n)
  let ?c1 = "c\<lparr>messageId := messageId c + 1\<rparr>"
  have step: "nextMessageId c = (messageId c + 1, ?c1)"
    using Suc.prems by (intro nextMessageId_plain) simp_all
  have rest: "allocate n ?c1 = (map (\<lambda>k. messageId ?c1 + 1 + int k) [0..<n],
                                ?c1\<lparr>messageId := messageId ?c1 + int n\<rparr>)"
    using Suc.prems by (intro Suc.IH) simp_all
  have shift: "map (\<lambda>k. messageId c + 1 + int k) [0..<Suc n]
               = (messageId c + 1) # map (\<lambda>k. messageId c + 1 + 1 + int k) [0..<n]"
    by (simp add: upt_conv_Cons map_Suc_upt [symmetric] del: upt_Suc)
  show ?case
    unfolding allocate.simps step using rest shift by (simp add: add.commute add.left_commute)
qed

lemma MAX_big: "1 < MAX_MESSAGE_ID - 1"
  by (simp add: MAX_MESSAGE_ID_def)

lemma nextMessageId_mod:
  assumes "1 \<le> messageId c" and "messageId c < MAX_MESSAGE_ID"
  shows "fst (nextMessageId c) = messageId c mod (MAX_MESSAGE_ID - 1) + 1"
    and "messageId (snd (nextMessageId c)) = fst (nextMessageId c)"
proof -
  show "messageId (snd (nextMessageId c)) = fst (nextMessageId c)"
    by (simp add: nextMessageId_def Let_def)
  show "fst (nextMessageId c) = messageId c mod (MAX_MESSAGE_ID - 1) + 1"
  proof (cases "messageId c + 1 \<ge> MAX_MESSAGE_ID")
    case True
    then have "messageId c = MAX_MESSAGE_ID - 1" using assms by simp
    then show ?thesis using True by (simp add: nextMessageId_def Let_def)
  next
    case False
    then have "messageId c mod (MAX_MESSAGE_ID - 1) = messageId c"
      using assms by simp
    then show ?thesis using False by (simp add: nextMessageId_def Let_def)
  qed
qed

lemma allocate_Suc:
  "fst (allocate (Suc n) c)
     = fst (nextMessageId c) # fst (allocate n (snd (nextMessageId c)))"
  by (simp add: Let_def split: prod.splits)

lemma allocate_length: "length (fst (allocate n c)) = n"
  by (induction n arbitrary: c) (simp_all add: allocate_Suc del: allocate.simps(2))

lemma allocate_nth:
  "k < n \<Longrightarrow> 1 \<le> messageId c \<Longrightarrow> messageId c < MAX_MESSAGE_ID \<Longrightarrow>
   fst (allocate n c) ! k = (messageId c + int k) mod (MAX_MESSAGE_ID - 1) + 1"
proof (induction n arbitrary: c k)
  case 0
  then show ?case by simp
next
  case (Suc n)
  obtain i c1 where step: "nextMessageId c = (i, c1)" by (cases "nextMessageId c")
  have i: "i = messageId c mod (MAX_MESSAGE_ID - 1) + 1" and c1: "messageId c1 = i"
    using nextMessageId_mod [OF Suc.prems(2,3)] step by simp_all
  have P: "0 < MAX_MESSAGE_ID - 1" using MAX_big by simp
  have range: "1 \<le> messageId c1" "messageId c1 < MAX_MESSAGE_ID"
    using c1 i pos_mod_bound [OF P, of "messageId c"] pos_mod_sign [OF P, of "messageId c"]
    by simp_all
  show ?case
  proof (cases k)
    case 0
    then show ?thesis using step i by (simp add: allocate_Suc del: allocate.simps(2))
  next
    case (Suc j)
    then have "j < n" using Suc.prems(1) by simp
    then have "fst (allocate n c1) ! j = (messageId c1 + int j) mod (MAX_MESSAGE_ID - 1) + 1"
      using range by (rule Suc.IH)
    also have "(messageId c1 + int j) mod (MAX_MESSAGE_ID - 1)
               = (messageId c + int k) mod (MAX_MESSAGE_ID - 1)"
    proof -
      have "(messageId c1 + int j) mod (MAX_MESSAGE_ID - 1)
            = (messageId c mod (MAX_MESSAGE_ID - 1) + (1 + int j)) mod (MAX_MESSAGE_ID - 1)"
        using c1 i by (simp add: add.assoc)
      also have "\<dots> = (messageId c + (1 + int j)) mod (MAX_MESSAGE_ID - 1)"
        by (rule mod_add_left_eq)
      finally show ?thesis using Suc by (simp add: add.commute)
    qed
    finally show ?thesis
      using Suc step by (simp add: allocate_Suc del: allocate.simps(2))
  qed
qed

lemma allocate_distinct:
  assumes "1 \<le> messageId c" and "messageId c < MAX_MESSAGE_ID" and "int n \<le> MAX_MESSAGE_ID - 1"
  shows "distinct (fst (allocate n c))"
proof -
  let ?P = "MAX_MESSAGE_ID - 1"
  have "fst (allocate n c) ! j \<noteq> fst (allocate n c) ! k" if "j < k" "k < n" for j k
  proof
    assume eq: "fst (allocate n c) ! j = fst (allocate n c) ! k"
    have "j < n" using that by simp
    then have "(messageId c + int j) mod ?P = (messageId c + int k) mod ?P"
      using eq allocate_nth [OF _ assms(1,2)] that(2) by simp
    then have "(messageId c + int k) mod ?P = (messageId c + int j) mod ?P"
      by simp
    then have "?P dvd (messageId c + int k) - (messageId c + int j)"
      by (simp only: mod_eq_dvd_iff)
    then have "?P dvd int k - int j" by simp
    moreover have "0 < int k - int j" "int k - int j < ?P"
      using that assms(3) by simp_all
    ultimately show False
      using zdvd_not_zless by blast
  qed
  then have "\<forall>j k. j < k \<longrightarrow> k < n \<longrightarrow> fst (allocate n c) ! j \<noteq> fst (allocate n c) ! k"
    by blast
  then show ?thesis
    unfolding distinct_conv_nth allocate_length
    by (metis nat_neq_iff)
qed

text \<open>
  C5. The counter starts at 1 and is incremented before use, so the first id is 2. For
  every \<open>n\<close> below \<open>2^31 - 2\<close> the first \<open>n\<close> ids are \<open>2, 3, ..., n + 1\<close>: strictly
  increasing and pairwise distinct. When the increment reaches \<open>2^31 - 1\<close> the counter
  is reset, and the id returned is 1. From any counter in the range of the ids, up to
  \<open>2^31 - 2\<close> ids in a row are pairwise distinct.
\<close>

theorem message_ids_increase_then_wrap:
  fixes c :: "'f client"
  shows "fst (nextMessageId (new_client :: 'f client)) = 2
   \<and> (int n < MAX_MESSAGE_ID - 1 \<longrightarrow>
        fst (allocate n (new_client :: 'f client)) = map (\<lambda>k. int k + 2) [0..<n]
        \<and> sorted_wrt (<) (fst (allocate n (new_client :: 'f client)))
        \<and> distinct (fst (allocate n (new_client :: 'f client))))
   \<and> (messageId c + 1 = MAX_MESSAGE_ID \<longrightarrow>
        fst (nextMessageId c) = 1 \<and> messageId (snd (nextMessageId c)) = 1)
   \<and> (1 \<le> messageId c \<and> messageId c < MAX_MESSAGE_ID \<and> int n \<le> MAX_MESSAGE_ID - 1 \<longrightarrow>
        distinct (fst (allocate n c)))"
proof -
  let ?c0 = "new_client :: 'f client"
  have first: "fst (nextMessageId ?c0) = 2"
    by (simp add: nextMessageId_def new_client_def MAX_MESSAGE_ID_def)
  have wrap: "messageId c + 1 = MAX_MESSAGE_ID \<longrightarrow>
              fst (nextMessageId c) = 1 \<and> messageId (snd (nextMessageId c)) = 1"
    by (simp add: nextMessageId_wrap)
  have run: "fst (allocate n ?c0) = map (\<lambda>k. int k + 2) [0..<n]"
    if small: "int n < MAX_MESSAGE_ID - 1"
  proof -
    have "allocate n ?c0 = (map (\<lambda>k. messageId ?c0 + 1 + int k) [0..<n],
                            ?c0\<lparr>messageId := messageId ?c0 + int n\<rparr>)"
      using small by (intro allocate_run) (simp_all add: new_client_def)
    then show ?thesis by (simp add: new_client_def add.commute)
  qed
  have incr: "sorted_wrt (<) (map (\<lambda>k. int k + 2) [0..<n])"
    by (simp add: sorted_wrt_map)
  have dist: "distinct (map (\<lambda>k. int k + 2) [0..<n])"
    by (simp add: distinct_map inj_on_def)
  have window: "1 \<le> messageId c \<and> messageId c < MAX_MESSAGE_ID \<and> int n \<le> MAX_MESSAGE_ID - 1 \<longrightarrow>
                distinct (fst (allocate n c))"
    using allocate_distinct [of c n] by blast
  show ?thesis
    using first wrap run incr dist window by simp
qed

theorem message_ids_increase_then_wrap_witness:
  "fst (allocate 3 (new_client :: unit client)) = [2, 3, 4]
   \<and> fst (nextMessageId ((new_client :: unit client)\<lparr>messageId := 2 ^ 31 - 2\<rparr>)) = 1"
  using message_ids_increase_then_wrap
          [of 3 "(new_client :: unit client)\<lparr>messageId := 2 ^ 31 - 2\<rparr>"]
  by (simp add: MAX_MESSAGE_ID_def upt_rec)

subsection \<open>Unbind without a connection\<close>

lemma unbind_connected:
  assumes "connected c" and "socket c = Some s"
  shows "\<exists>c'. unbind c = (Pending, c')
            \<and> wire c' = wire c @ [(sock_ref s, UnbindRequest (fst (nextMessageId c)))]"
  using assms
  by (simp add: unbind_def send_def nextMessageId_def Let_def split: prod.splits)

text \<open>
  C10. \<open>unbind\<close> on a client that is not connected, or that has no socket, resolves at
  once and returns the client as it was: the counter, the connected flag, the pending
  request table and the log of socket writes are unchanged.
\<close>

theorem unbind_not_connected_noop:
  "\<not> connected c \<or> socket c = None \<Longrightarrow> unbind c = (Resolved (), c)"
  by (simp add: unbind_def)

theorem unbind_not_connected_noop_witness:
  "connected (new_client :: unit client) = False
   \<and> unbind (new_client :: unit client) = (Resolved (), new_client)"
  using unbind_not_connected_noop [of "new_client :: unit client"]
  by (simp add: new_client_def)

subsection \<open>The pending request table after a close\<close>

lemma table_set_keys: "set (map fst (table_set k v t)) = insert k (set (map fst t))"
proof (induction t)
  case Nil
  then show ?case by simp
next
  case (Cons p t)
  obtain k' v' where p: "p = (k', v')" by (cases p)
  show ?case using Cons.IH by (auto simp: p)
qed

lemma table_set_sorted:
  "sorted_wrt (<) (map fst t) \<Longrightarrow> sorted_wrt (<) (map fst (table_set k v t))"
proof (induction t)
  case Nil
  then show ?case by simp
next
  case (Cons p t)
  obtain k' v' where p: "p = (k', v')" by (cases p)
  have tail: "sorted_wrt (<) (map fst (table_set k v t))"
    using Cons by simp
  have lower: "\<forall>x \<in> set (map fst t). k' < x"
    using Cons.prems p by simp
  show ?case
  proof (cases "k = k'")
    case True
    then show ?thesis using Cons.prems p by simp
  next
    case False
    show ?thesis
    proof (cases "k < k'")
      case True
      then show ?thesis using Cons.prems p False by auto
    next
      case notless: False
      have "\<forall>x \<in> set (map fst (table_set k v t)). k' < x"
        unfolding table_set_keys using lower notless False by auto
      then show ?thesis using p False notless tail by simp
    qed
  qed
qed

lemma sorted_keys_distinct: "sorted_wrt (<) (map fst t) \<Longrightarrow> distinct (map fst (t :: (int \<times> 'a) list))"
  by (simp add: strict_sorted_iff)

lemma close_loop_eq:
  "close_loop this entries (table, events) =
     (filter (\<lambda>e. fst e \<notin> set (map fst (filter (owned_by this) entries))) table,
      events @ map settle_of (filter (owned_by this) entries))"
proof (induction entries arbitrary: table events)
  case Nil
  then show ?case by simp
next
  case (Cons e entries)
  obtain key d where e: "e = (key, d)" by (cases e)
  show ?case
  proof (cases "owned_by this e")
    case True
    have del: "filter (\<lambda>x. fst x \<notin> set (map fst (filter (owned_by this) entries)))
                 (table_delete key table)
               = filter (\<lambda>x. fst x \<notin> set (map fst (filter (owned_by this) (e # entries)))) table"
      using True e by (auto simp: table_delete_def intro: filter_cong)
    show ?thesis
      using True e Cons.IH [of "table_delete key table"] del
      by (simp add: owned_by_def settle_of_def Let_def)
  next
    case False
    then show ?thesis
      using e Cons.IH [of table events] by (simp add: owned_by_def)
  qed
qed

lemma filter_by_owned_keys:
  assumes "distinct (map fst t)"
  shows "filter (\<lambda>e. fst e \<notin> set (map fst (filter P t))) t = filter (\<lambda>e. \<not> P e) t"
proof (rule filter_cong [OF refl])
  fix e assume e: "e \<in> set t"
  have "fst e \<in> set (map fst (filter P t)) \<longleftrightarrow> P e"
  proof
    assume "fst e \<in> set (map fst (filter P t))"
    then obtain e' where e': "e' \<in> set t" "P e'" "fst e' = fst e" by auto
    have "e' = e"
      using assms e e' by (metis eq_key_imp_eq_value prod.collapse)
    then show "P e" using e' by simp
  next
    assume "P e"
    then show "fst e \<in> set (map fst (filter P t))" using e by force
  qed
  then show "(fst e \<notin> set (map fst (filter P t))) = (\<not> P e)" by simp
qed

text \<open>
  C6. When socket \<open>this\<close> closes, the entries of the pending request table whose socket
  has the id of \<open>this\<close> are exactly the ones removed; each of them is settled once, in
  table order, an UnbindRequest by resolving and any other message by rejecting; the
  other entries stay as they were, and no entry with the closed socket's id is left.
  The keys of the table are distinct, as the keys of a JavaScript object are.
\<close>

theorem socketClose_drains_owned_entries:
  assumes "distinct (map fst (messageDetailsByMessageId c))"
  shows "messageDetailsByMessageId (fst (socketClose this c))
           = filter (\<lambda>e. \<not> owned_by this e) (messageDetailsByMessageId c)
         \<and> snd (socketClose this c)
           = map settle_of (filter (owned_by this) (messageDetailsByMessageId c))
         \<and> filter (owned_by this) (messageDetailsByMessageId (fst (socketClose this c))) = []"
proof -
  let ?t = "messageDetailsByMessageId c"
  let ?c1 = "if map_option sock_ref (socket c) = Some (sock_ref this)
             then c\<lparr>connected := False, socket := None\<rparr> else c"
  have t1: "messageDetailsByMessageId ?c1 = ?t" by simp
  have loop: "close_loop this ?t (?t, [])
              = (filter (\<lambda>e. \<not> owned_by this e) ?t, map settle_of (filter (owned_by this) ?t))"
    unfolding close_loop_eq filter_by_owned_keys [OF assms] by simp
  have run: "socketClose this c
             = (?c1\<lparr>messageDetailsByMessageId := filter (\<lambda>e. \<not> owned_by this e) ?t\<rparr>,
                map settle_of (filter (owned_by this) ?t))"
    unfolding socketClose_def Let_def t1 loop by simp
  show ?thesis
    unfolding run by (simp add: filter_empty_conv)
qed

theorem socketClose_drains_owned_entries_witness:
  "distinct (map fst
     [(2 :: int, \<lparr>md_message = UnbindRequest 2,
                  md_socket = \<lparr>sock_ref = 0, sock_id = Some ''a''\<rparr>\<rparr>),
      (3, \<lparr>md_message = OtherRequest ''AddRequest'' 3,
            md_socket = \<lparr>sock_ref = 0, sock_id = Some ''a''\<rparr>\<rparr>),
      (4, \<lparr>md_message = (OtherRequest ''AddRequest'' 4 :: unit message),
            md_socket = \<lparr>sock_ref = 1, sock_id = Some ''b''\<rparr>\<rparr>)])
   \<and> socketClose \<lparr>sock_ref = 0, sock_id = Some ''a''\<rparr>
        \<lparr>messageId = 4, connected = True, socket = Some \<lparr>sock_ref = 0, sock_id = Some ''a''\<rparr>,
         messageDetailsByMessageId =
           [(2, \<lparr>md_message = UnbindRequest 2,
                 md_socket = \<lparr>sock_ref = 0, sock_id = Some ''a''\<rparr>\<rparr>),
            (3, \<lparr>md_message = OtherRequest ''AddRequest'' 3,
                 md_socket = \<lparr>sock_ref = 0, sock_id = Some ''a''\<rparr>\<rparr>),
            (4, \<lparr>md_message = (OtherRequest ''AddRequest'' 4 :: unit message),
                 md_socket = \<lparr>sock_ref = 1, sock_id = Some ''b''\<rparr>\<rparr>)],
         wire = []\<rparr>
     = (\<lparr>messageId = 4, connected = False, socket = None,
         messageDetailsByMessageId =
           [(4, \<lparr>md_message = OtherRequest ''AddRequest'' 4,
                 md_socket = \<lparr>sock_ref = 1, sock_id = Some ''b''\<rparr>\<rparr>)],
         wire = []\<rparr>,
        [Resolve 2, Reject 3 (ConnectionClosed ''AddRequest'')])"
proof -
  let ?a = "\<lparr>sock_ref = 0, sock_id = Some ''a''\<rparr>"
  let ?t = "[(2 :: int, \<lparr>md_message = UnbindRequest 2, md_socket = ?a\<rparr>),
             (3, \<lparr>md_message = OtherRequest ''AddRequest'' 3, md_socket = ?a\<rparr>),
             (4, \<lparr>md_message = (OtherRequest ''AddRequest'' 4 :: unit message),
                   md_socket = \<lparr>sock_ref = 1, sock_id = Some ''b''\<rparr>\<rparr>)]"
  let ?c = "\<lparr>messageId = 4, connected = True, socket = Some ?a,
             messageDetailsByMessageId = ?t, wire = []\<rparr>"
  have keys: "distinct (map fst (messageDetailsByMessageId ?c))" by simp
  have table: "messageDetailsByMessageId (fst (socketClose ?a ?c))
                 = [(4, \<lparr>md_message = OtherRequest ''AddRequest'' 4,
                          md_socket = \<lparr>sock_ref = 1, sock_id = Some ''b''\<rparr>\<rparr>)]"
    and events: "snd (socketClose ?a ?c) = [Resolve 2, Reject 3 (ConnectionClosed ''AddRequest'')]"
    using socketClose_drains_owned_entries [OF keys, of ?a]
    by (simp_all add: owned_by_def settle_of_def)
  have rest: "fst (socketClose ?a ?c)
              = \<lparr>messageId = 4, connected = False, socket = None,
                  messageDetailsByMessageId = messageDetailsByMessageId (fst (socketClose ?a ?c)),
                  wire = []\<rparr>"
    by (simp add: socketClose_def Let_def split: prod.splits)
  show ?thesis
    using keys table events rest by (simp add: prod_eq_iff)
qed

subsection \<open>A Paged-Results control from the caller\<close>

lemma ensure_connected_frame:
  "ensure_connected r c = Inl (e, c1) \<or> ensure_connected r c = Inr c1 \<Longrightarrow>
   messageId c1 = messageId c \<and> wire c1 = wire c
   \<and> messageDetailsByMessageId c1 = messageDetailsByMessageId c"
  by (auto simp: ensure_connected_def split: if_splits connect_result.splits)

text \<open>
  C9. When the \<open>controls\<close> argument of \<open>search\<close> holds a PagedResultsControl, the call
  is rejected, and the client has taken no message id, written nothing to a socket and
  entered nothing in the pending request table. The connection is opened first when
  there is none; when it is there or can be opened, the error is the one of the check.
\<close>

theorem search_rejects_caller_paged_control:
  assumes "list_ex is_PagedResultsControl (controls_list controls)"
  shows "(\<exists>e. fst (search w c baseDN options controls) = Rejected e)
         \<and> messageId (snd (search w c baseDN options controls)) = messageId c
         \<and> wire (snd (search w c baseDN options controls)) = wire c
         \<and> messageDetailsByMessageId (snd (search w c baseDN options controls))
             = messageDetailsByMessageId c
         \<and> (connected c \<or> (\<exists>s. w_connect w = ConnectOk s) \<longrightarrow>
              fst (search w c baseDN options controls)
                = Rejected (Error ''Should not specify PagedResultsControl''))"
proof (cases "ensure_connected (w_connect w) c")
  case (Inl p)
  obtain e c1 where p: "p = (e, c1)" by (cases p)
  have run: "search w c baseDN options controls = (Rejected e, c1)"
    using Inl p by (simp add: search_def)
  have frame: "messageId c1 = messageId c \<and> wire c1 = wire c
               \<and> messageDetailsByMessageId c1 = messageDetailsByMessageId c"
    using Inl p ensure_connected_frame [of "w_connect w" c e c1] by simp
  have "\<not> (connected c \<or> (\<exists>s. w_connect w = ConnectOk s))"
    using Inl by (auto simp: ensure_connected_def split: if_splits)
  then show ?thesis using run frame by simp
next
  case (Inr c1)
  have run: "search w c baseDN options controls
             = (Rejected (Error ''Should not specify PagedResultsControl''), c1)"
    using Inr assms by (simp add: search_def)
  have frame: "messageId c1 = messageId c \<and> wire c1 = wire c
               \<and> messageDetailsByMessageId c1 = messageDetailsByMessageId c"
    using Inr ensure_connected_frame [of "w_connect w" c undefined c1] by simp
  show ?thesis using run frame by simp
qed

theorem search_rejects_caller_paged_control_witness:
  "list_ex is_PagedResultsControl
     (controls_list (Some (ControlArray [OtherControl ''1.2.3'', PagedResultsControl None])))
   \<and> search \<lparr> w_connect = ConnectOk \<lparr>sock_ref = 0, sock_id = Some ''u''\<rparr>,
               w_parseString = (\<lambda>str. Inl (Error ''Filter cannot be empty'')),
               w_PresenceFilter = (\<lambda>a. ()), w_toObject = (\<lambda>e a b. e),
               w_responses = ([] :: string send_result list) \<rparr>
        new_client ''dc=example''
        \<lparr> so_scope = None, so_returnAttributeValues = None, so_sizeLimit = None,
          so_timeLimit = None, so_paged = None, so_filter = None, so_attributes = None,
          so_explicitBufferAttributes = None \<rparr>
        (Some (ControlArray [OtherControl ''1.2.3'', PagedResultsControl None]))
     = (Rejected (Error ''Should not specify PagedResultsControl''),
        \<lparr> messageId = 1, connected = True, socket = Some \<lparr>sock_ref = 0, sock_id = Some ''u''\<rparr>,
          messageDetailsByMessageId = [], wire = [] \<rparr>)"
proof -
  let ?controls = "Some (ControlArray [OtherControl ''1.2.3'', PagedResultsControl None])"
  let ?w = "\<lparr> w_connect = ConnectOk \<lparr>sock_ref = 0, sock_id = Some ''u''\<rparr>,
              w_parseString = (\<lambda>str. Inl (Error ''Filter cannot be empty'')),
              w_PresenceFilter = (\<lambda>a. ()), w_toObject = (\<lambda>e a b. e),
              w_responses = ([] :: string send_result list) \<rparr>"
  let ?options = "\<lparr> so_scope = None, so_returnAttributeValues = None, so_sizeLimit = None,
          so_timeLimit = None, so_paged = None, so_filter = (None :: unit filter_arg option),
          so_attributes = None, so_explicitBufferAttributes = None \<rparr>"
  let ?run = "search ?w new_client ''dc=example'' ?options ?controls"
  have given: "list_ex is_PagedResultsControl (controls_list ?controls)" by simp
  have out: "fst ?run = Rejected (Error ''Should not specify PagedResultsControl'')"
    and frame: "messageId (snd ?run) = 1" "wire (snd ?run) = []"
      "messageDetailsByMessageId (snd ?run) = []"
    using search_rejects_caller_paged_control
            [OF given, of ?w "new_client :: unit client" "''dc=example''" ?options]
    by (simp_all add: new_client_def)
  have flags: "connected (snd ?run) = True"
      "socket (snd ?run) = Some \<lparr>sock_ref = 0, sock_id = Some ''u''\<rparr>"
    by (simp_all add: search_def ensure_connected_def new_client_def)
  have "snd ?run = \<lparr> messageId = 1, connected = True,
                      socket = Some \<lparr>sock_ref = 0, sock_id = Some ''u''\<rparr>,
                      messageDetailsByMessageId = [], wire = [] \<rparr>"
    using frame flags by (cases "snd ?run") simp
  then show ?thesis using given out by (simp add: prod_eq_iff)
qed

subsection \<open>The status of a search response\<close>

lemma send_connected:
  "connected c \<Longrightarrow> socket c = Some s \<Longrightarrow>
   send message c
     = Inr (c\<lparr> messageDetailsByMessageId :=
                  table_set (message_messageId message) \<lparr> md_message = message, md_socket = s \<rparr>
                    (messageDetailsByMessageId c),
               wire := wire c @ [(sock_ref s, message)] \<rparr>)"
  by (simp add: send_def)

lemma nextMessageId_flags:
  "connected (snd (nextMessageId c)) = connected c"
  "socket (snd (nextMessageId c)) = socket c"
  "wire (snd (nextMessageId c)) = wire c"
  "messageDetailsByMessageId (snd (nextMessageId c)) = messageDetailsByMessageId c"
  "messageId (snd (nextMessageId c)) = fst (nextMessageId c)"
  by (simp_all add: nextMessageId_def Let_def)

lemma issue_connected:
  assumes "connected c" and "socket c = Some s"
  shows "issue objs c
         = Inr (objs\<lparr>searchRequest := issued_request objs c\<rparr>, issued_client s objs c)"
proof -
  obtain i c1 where n: "nextMessageId c = (i, c1)" by (cases "nextMessageId c")
  have c1: "connected c1" "socket c1 = Some s"
    using assms nextMessageId_flags(1,2) [of c] n by simp_all
  have tw: "messageDetailsByMessageId c1 = messageDetailsByMessageId c" "wire c1 = wire c"
    using nextMessageId_flags(3,4) [of c] n by simp_all
  show ?thesis
    unfolding issue_def n
    by (simp add: send_connected [OF c1] issued_request_def issued_client_def n tw)
qed

lemma check_status_messageId:
  "check_status (request\<lparr>sr_messageId := i\<rparr>) result = check_status request result"
  by (simp add: check_status_def)

lemma sendSearch_Responds:
  assumes "connected c" and "socket c = Some s"
  shows "sendSearch toObject paged pageSize (Responds result # rest) objs c =
     (case check_status (searchRequest objs) result of
        Some e \<Rightarrow> (Rejected e, objs\<lparr>searchRequest := issued_request objs c\<rparr>,
                   page_client s objs c)
      | None \<Rightarrow>
          (case next_page paged pageSize result (page_objects toObject result objs c) of
             Some objs3 \<Rightarrow> sendSearch toObject paged pageSize rest objs3 (page_client s objs c)
           | None \<Rightarrow> (Resolved (), page_objects toObject result objs c, page_client s objs c)))"
  unfolding sendSearch.simps issue_connected [OF assms]
  by (simp add: Let_def issued_request_def check_status_messageId page_objects_def
        page_client_def split: option.splits)

lemma ensure_connected_Inr:
  "ensure_connected r c = Inr c1 \<Longrightarrow> connected c1"
  by (auto simp: ensure_connected_def split: if_splits connect_result.splits)

lemma search_ready:
  assumes "ensure_connected (w_connect w) c = Inr c1"
    and "\<not> list_ex is_PagedResultsControl (controls_list controls)"
    and "search_filter w (so_filter options) = Inr f"
  shows "search w c baseDN options controls =
     (case sendSearch (w_toObject w) (shouldPage (so_paged options)) (page_size options)
             (w_responses w) (new_search_objects baseDN options controls f) c1 of
        (Resolved u, objs1, c2) \<Rightarrow> (Resolved (searchResult objs1), c2)
      | (Rejected e, objs1, c2) \<Rightarrow> (Rejected e, c2)
      | (Pending, objs1, c2) \<Rightarrow> (Pending, c2))"
  using assms by (simp add: search_def)

lemma new_search_objects_fields:
  "sr_sizeLimit (searchRequest (new_search_objects baseDN options controls f)) = so_sizeLimit options"
  "sr_attributes (searchRequest (new_search_objects baseDN options controls f)) = so_attributes options"
  "sr_explicitBufferAttributes (searchRequest (new_search_objects baseDN options controls f))
     = so_explicitBufferAttributes options"
  "searchResult (new_search_objects baseDN options controls f)
     = \<lparr> searchEntries = [], searchReferences = [] \<rparr>"
  by (simp_all add: new_search_objects_def Let_def)

lemma next_page_status:
  "next_page paged pageSize (result\<lparr>rs_status := st\<rparr>) objs = next_page paged pageSize result objs"
  by (auto simp: next_page_def)

lemma search_filter_responses:
  "search_filter (w\<lparr>w_responses := rs\<rparr>) x = search_filter w x"
  by (simp add: search_filter_def split: option.splits filter_arg.splits)

lemma collect_status:
  "collect toObject request (result\<lparr>rs_status := st\<rparr>) r = collect toObject request result r"
  by (simp add: collect_def)

lemma next_page_unpaged: "next_page False pageSize result objs = None"
  by (simp add: next_page_def)

lemmas run_defs =
  search_def ensure_connected_def search_filter_def new_search_objects_def page_size_def
  issue_def send_def nextMessageId_def MAX_MESSAGE_ID_def settled_def table_delete_def
  check_status_def collect_def next_page_def response_cookie_def with_cookie_def
  Success_def SizeLimitExceeded_def a_world_def a_client_def a_socket_def new_client_def
  some_options_def a_response_def first_page_def last_page_def empty_page_def
  paged_objects_def Let_def

lemma page_client_fields:
  "connected (page_client s objs c) = connected c"
  "socket (page_client s objs c) = socket c"
  "messageId (page_client s objs c) = fst (nextMessageId c)"
  "wire (page_client s objs c) = wire c @ [(sock_ref s, SearchRequest (issued_request objs c))]"
  by (simp_all add: page_client_def settled_def issued_client_def nextMessageId_flags)

lemma issue_sizeLimit:
  "issue objs c = Inr (objs1, c2) \<Longrightarrow>
   sr_sizeLimit (searchRequest objs1) = sr_sizeLimit (searchRequest objs)"
  by (auto simp: issue_def Let_def split: prod.splits sum.splits)

lemma next_page_sizeLimit:
  "next_page paged pageSize q objs2 = Some objs3 \<Longrightarrow>
   sr_sizeLimit (searchRequest objs3) = sr_sizeLimit (searchRequest objs2)"
  by (auto simp: next_page_def with_cookie_def Let_def split: if_splits option.splits)

text \<open>
  Wherever in the run of a search the response with status sizeLimitExceeded comes, on
  the first page or after any number of pages, a request with a truthy \<open>sizeLimit\<close> goes
  on as it does for the same response with status success.
\<close>

lemma sendSearch_capped:
  assumes "rs_status r = SizeLimitExceeded"
  shows "truthy (sr_sizeLimit (searchRequest objs)) \<Longrightarrow>
         sendSearch toObject paged pageSize (before @ Responds r # rest) objs c
           = sendSearch toObject paged pageSize
               (before @ Responds (r\<lparr>rs_status := Success\<rparr>) # rest) objs c"
proof (induction before arbitrary: objs c)
  case Nil
  show ?case
  proof (cases "issue objs c")
    case (Inl x)
    then show ?thesis by (cases x) simp
  next
    case (Inr y)
    obtain objs1 c2 where y: "y = (objs1, c2)" by (cases y)
    have sent: "issue objs c = Inr (objs1, c2)" using Inr y by simp
    have "truthy (sr_sizeLimit (searchRequest objs1))"
      using issue_sizeLimit [OF sent] Nil by simp
    then have ok: "check_status (searchRequest objs1) r = None"
      "check_status (searchRequest objs1) (r\<lparr>rs_status := Success\<rparr>) = None"
      using assms by (simp_all add: check_status_def)
    show ?thesis
      by (simp add: sent ok collect_status next_page_status Let_def)
  qed
next
  case (Cons x before)
  show ?case
  proof (cases x)
    case (Rejects err)
    then show ?thesis by simp
  next
    case (Responds q)
    show ?thesis
    proof (cases "issue objs c")
      case (Inl y)
      then show ?thesis using Responds by (cases y) simp
    next
      case (Inr y)
      obtain objs1 c2 where y: "y = (objs1, c2)" by (cases y)
      have sent: "issue objs c = Inr (objs1, c2)" using Inr y by simp
      let ?objs2 = "objs1\<lparr>searchResult :=
                      collect toObject (searchRequest objs1) q (searchResult objs1)\<rparr>"
      show ?thesis
      proof (cases "check_status (searchRequest objs1) q")
        case (Some e)
        then show ?thesis using Responds by (simp add: sent)
      next
        case None
        note accepted = None
        show ?thesis
        proof (cases "next_page paged pageSize q ?objs2")
          case None
          then show ?thesis using Responds accepted by (simp add: sent Let_def)
        next
          case (Some objs3)
          have "sr_sizeLimit (searchRequest objs3) = sr_sizeLimit (searchRequest objs)"
            using next_page_sizeLimit [OF Some] issue_sizeLimit [OF sent] by simp
          then have "truthy (sr_sizeLimit (searchRequest objs3))"
            using Cons.prems by simp
          from Cons.IH [OF this] show ?thesis
            using Responds accepted Some by (simp add: sent Let_def)
        qed
      qed
    qed
  qed
qed

lemma search_run:
  assumes "ensure_connected (w_connect w) c = Inr c1"
    and "\<not> list_ex is_PagedResultsControl (controls_list controls)"
    and "search_filter w (so_filter options) = Inr f"
  shows "search (w\<lparr>w_responses := rs\<rparr>) c baseDN options controls =
     (case sendSearch (w_toObject w) (shouldPage (so_paged options)) (page_size options)
             rs (new_search_objects baseDN options controls f) c1 of
        (Resolved u, objs1, c2) \<Rightarrow> (Resolved (searchResult objs1), c2)
      | (Rejected e, objs1, c2) \<Rightarrow> (Rejected e, c2)
      | (Pending, objs1, c2) \<Rightarrow> (Pending, c2))"
  using search_ready [of "w\<lparr>w_responses := rs\<rparr>" c c1 controls options f baseDN] assms
  by (simp add: search_filter_responses)

text \<open>
  C4. The request of a search has a truthy \<open>sizeLimit\<close> and a response has status
  sizeLimitExceeded. Whatever came before it in the run (it may be the first response or
  the response to a later page of a paged search), \<open>_sendSearch\<close> goes on exactly as it
  does for the same response with status success; when no further page is asked for, it
  resolves, with the entries and references of the response appended to the result.
  The same holds of \<open>search\<close>, which passes the \<open>sizeLimit\<close> of the caller to the request:
  an unpaged search resolves with the entries and references of the response. A response
  with a status that is not success, and not sizeLimitExceeded under a truthy
  \<open>sizeLimit\<close>, makes \<open>_sendSearch\<close> and \<open>search\<close> reject with the error of the status-code
  mapper for the status and the message.
\<close>

theorem search_sizeLimitExceeded_is_success:
  fixes objs :: "('f, 'o) search_objects" and w :: "('f, 'e, 'o) world"
  shows
  "(truthy (sr_sizeLimit (searchRequest objs)) \<and> rs_status r = SizeLimitExceeded \<longrightarrow>
      sendSearch toObject paged pageSize (before @ Responds r # rest) objs c
        = sendSearch toObject paged pageSize
            (before @ Responds (r\<lparr>rs_status := Success\<rparr>) # rest) objs c)
   \<and> (connected c \<and> socket c = Some s
        \<and> truthy (sr_sizeLimit (searchRequest objs)) \<and> rs_status r = SizeLimitExceeded
        \<and> next_page paged pageSize r (page_objects toObject r objs c) = None \<longrightarrow>
        sendSearch toObject paged pageSize (Responds r # rest) objs c
          = (Resolved (), page_objects toObject r objs c, page_client s objs c)
        \<and> searchResult (page_objects toObject r objs c)
            = \<lparr> searchEntries = searchEntries (searchResult objs)
                    @ map (\<lambda>e. toObject e (sr_attributes (searchRequest objs))
                                   (sr_explicitBufferAttributes (searchRequest objs)))
                        (rs_searchEntries r),
                searchReferences = searchReferences (searchResult objs)
                    @ concat (rs_searchReferences r) \<rparr>)
   \<and> (connected c \<and> socket c = Some s \<and> rs_status r \<noteq> Success
        \<and> \<not> (rs_status r = SizeLimitExceeded \<and> truthy (sr_sizeLimit (searchRequest objs))) \<longrightarrow>
        sendSearch toObject paged pageSize (Responds r # rest) objs c
          = (Rejected (StatusError (rs_status r) (rs_errorMessage r)),
             objs\<lparr>searchRequest := issued_request objs c\<rparr>, page_client s objs c))
   \<and> (ensure_connected (w_connect w) c0 = Inr c1 \<and> socket c1 = Some s1
        \<and> \<not> list_ex is_PagedResultsControl (controls_list controls)
        \<and> search_filter w (so_filter options) = Inr f \<longrightarrow>
        (truthy (so_sizeLimit options) \<and> rs_status r = SizeLimitExceeded \<longrightarrow>
           search (w\<lparr>w_responses := before @ Responds r # rest\<rparr>) c0 baseDN options controls
             = search (w\<lparr>w_responses := before @ Responds (r\<lparr>rs_status := Success\<rparr>) # rest\<rparr>)
                 c0 baseDN options controls
           \<and> (\<not> shouldPage (so_paged options) \<longrightarrow>
                fst (search (w\<lparr>w_responses := Responds r # rest\<rparr>) c0 baseDN options controls)
                  = Resolved \<lparr> searchEntries =
                                 map (\<lambda>e. w_toObject w e (so_attributes options)
                                             (so_explicitBufferAttributes options))
                                   (rs_searchEntries r),
                               searchReferences = concat (rs_searchReferences r) \<rparr>))
        \<and> (rs_status r \<noteq> Success
             \<and> \<not> (rs_status r = SizeLimitExceeded \<and> truthy (so_sizeLimit options)) \<longrightarrow>
             fst (search (w\<lparr>w_responses := Responds r # rest\<rparr>) c0 baseDN options controls)
               = Rejected (StatusError (rs_status r) (rs_errorMessage r))))"
proof -
  have capped: "sendSearch toObject paged pageSize (before @ Responds r # rest) objs c
        = sendSearch toObject paged pageSize
            (before @ Responds (r\<lparr>rs_status := Success\<rparr>) # rest) objs c"
    if "truthy (sr_sizeLimit (searchRequest objs))" "rs_status r = SizeLimitExceeded"
    by (rule sendSearch_capped [OF that(2) that(1)])
  have last: "sendSearch toObject paged pageSize (Responds r # rest) objs c
          = (Resolved (), page_objects toObject r objs c, page_client s objs c)"
    if "connected c" "socket c = Some s" "truthy (sr_sizeLimit (searchRequest objs))"
      "rs_status r = SizeLimitExceeded"
      "next_page paged pageSize r (page_objects toObject r objs c) = None"
  proof -
    have ok: "check_status (searchRequest objs) r = None"
      using that(3,4) by (simp add: check_status_def)
    show ?thesis
      unfolding sendSearch_Responds [OF that(1,2)] ok using that(5) by simp
  qed
  have appended: "searchResult (page_objects toObject r objs c)
            = \<lparr> searchEntries = searchEntries (searchResult objs)
                    @ map (\<lambda>e. toObject e (sr_attributes (searchRequest objs))
                                   (sr_explicitBufferAttributes (searchRequest objs)))
                        (rs_searchEntries r),
                searchReferences = searchReferences (searchResult objs)
                    @ concat (rs_searchReferences r) \<rparr>"
    by (simp add: page_objects_def collect_def issued_request_def)
  have thrown: "sendSearch toObject paged pageSize (Responds r # rest) objs c
          = (Rejected (StatusError (rs_status r) (rs_errorMessage r)),
             objs\<lparr>searchRequest := issued_request objs c\<rparr>, page_client s objs c)"
    if "connected c" "socket c = Some s" "rs_status r \<noteq> Success"
      "\<not> (rs_status r = SizeLimitExceeded \<and> truthy (sr_sizeLimit (searchRequest objs)))"
  proof -
    have bad: "check_status (searchRequest objs) r
               = Some (StatusError (rs_status r) (rs_errorMessage r))"
      using that(3,4) by (simp add: check_status_def)
    show ?thesis
      unfolding sendSearch_Responds [OF that(1,2)] bad by simp
  qed
  have entry: "(truthy (so_sizeLimit options) \<and> rs_status r = SizeLimitExceeded \<longrightarrow>
           search (w\<lparr>w_responses := before @ Responds r # rest\<rparr>) c0 baseDN options controls
             = search (w\<lparr>w_responses := before @ Responds (r\<lparr>rs_status := Success\<rparr>) # rest\<rparr>)
                 c0 baseDN options controls
           \<and> (\<not> shouldPage (so_paged options) \<longrightarrow>
                fst (search (w\<lparr>w_responses := Responds r # rest\<rparr>) c0 baseDN options controls)
                  = Resolved \<lparr> searchEntries =
                                 map (\<lambda>e. w_toObject w e (so_attributes options)
                                             (so_explicitBufferAttributes options))
                                   (rs_searchEntries r),
                               searchReferences = concat (rs_searchReferences r) \<rparr>))
        \<and> (rs_status r \<noteq> Success
             \<and> \<not> (rs_status r = SizeLimitExceeded \<and> truthy (so_sizeLimit options)) \<longrightarrow>
             fst (search (w\<lparr>w_responses := Responds r # rest\<rparr>) c0 baseDN options controls)
               = Rejected (StatusError (rs_status r) (rs_errorMessage r)))"
    if ready: "ensure_connected (w_connect w) c0 = Inr c1" "socket c1 = Some s1"
      "\<not> list_ex is_PagedResultsControl (controls_list controls)"
      "search_filter w (so_filter options) = Inr f"
  proof -
    let ?objs = "new_search_objects baseDN options controls f :: ('f, 'o) search_objects"
    let ?paged = "shouldPage (so_paged options)"
    note run = search_run [OF ready(1,3,4)]
    have conn: "connected c1"
      by (rule ensure_connected_Inr [OF ready(1)])
    have limit: "sr_sizeLimit (searchRequest ?objs) = so_sizeLimit options"
      by (simp add: new_search_objects_fields)
    have same: "search (w\<lparr>w_responses := before @ Responds r # rest\<rparr>) c0 baseDN options controls
             = search (w\<lparr>w_responses := before @ Responds (r\<lparr>rs_status := Success\<rparr>) # rest\<rparr>)
                 c0 baseDN options controls"
      if "truthy (so_sizeLimit options)" "rs_status r = SizeLimitExceeded"
    proof -
      have "truthy (sr_sizeLimit (searchRequest ?objs))" using that(1) limit by simp
      from sendSearch_capped [OF that(2) this] show ?thesis
        by (simp only: run)
    qed
    have unpaged: "fst (search (w\<lparr>w_responses := Responds r # rest\<rparr>) c0 baseDN options controls)
                  = Resolved \<lparr> searchEntries =
                                 map (\<lambda>e. w_toObject w e (so_attributes options)
                                             (so_explicitBufferAttributes options))
                                   (rs_searchEntries r),
                               searchReferences = concat (rs_searchReferences r) \<rparr>"
      if "truthy (so_sizeLimit options)" "rs_status r = SizeLimitExceeded" "\<not> ?paged"
    proof -
      have ok: "check_status (searchRequest ?objs) r = None"
        using that by (simp add: check_status_def new_search_objects_fields)
      show ?thesis
        unfolding run sendSearch_Responds [OF conn ready(2)] ok
        using that(3)
        by (simp add: next_page_unpaged page_objects_def collect_def issued_request_def
              new_search_objects_fields)
    qed
    have other: "fst (search (w\<lparr>w_responses := Responds r # rest\<rparr>) c0 baseDN options controls)
                 = Rejected (StatusError (rs_status r) (rs_errorMessage r))"
      if "rs_status r \<noteq> Success"
        "\<not> (rs_status r = SizeLimitExceeded \<and> truthy (so_sizeLimit options))"
    proof -
      have bad: "check_status (searchRequest ?objs) r
                 = Some (StatusError (rs_status r) (rs_errorMessage r))"
        using that by (simp add: check_status_def new_search_objects_fields)
      show ?thesis
        unfolding run sendSearch_Responds [OF conn ready(2)] bad by simp
    qed
    show ?thesis
      using same unpaged other by blast
  qed
  show ?thesis
    using capped last appended thrown entry by blast
qed

theorem search_sizeLimitExceeded_is_success_witness:
  "fst (search (a_world [Responds first_page, Responds (a_response 4 [''cn=b''] None)])
          new_client ''dc=example'' (some_options (Some 3) (Some (PagedBoolean True))) None)
     = Resolved \<lparr> searchEntries = [''cn=a'', ''cn=b''], searchReferences = [] \<rparr>
   \<and> fst (search (a_world [Responds (a_response 4 [''cn=a'', ''cn=b''] None)]) new_client
          ''dc=example'' (some_options (Some 2) None) None)
     = Resolved \<lparr> searchEntries = [''cn=a'', ''cn=b''], searchReferences = [] \<rparr>
   \<and> fst (search (a_world [Responds (a_response 32 [] None)]) new_client
          ''dc=example'' (some_options (Some 2) None) None)
     = Rejected (StatusError 32 ''message'')
   \<and> fst (search (a_world [Responds (a_response 4 [''cn=a''] None)]) new_client
          ''dc=example'' (some_options None None) None)
     = Rejected (StatusError 4 ''message'')
   \<and> sendSearch (\<lambda>e a b. e) True 2 [Responds (a_response 4 [''cn=b''] None)]
         (with_cookie 2 ''abc'' (page_objects (\<lambda>e a b. e) first_page capped_objects a_client))
         (page_client a_socket capped_objects a_client)
       = (Resolved (),
          page_objects (\<lambda>e a b. e) (a_response 4 [''cn=b''] None)
            (with_cookie 2 ''abc''
               (page_objects (\<lambda>e a b. e) first_page capped_objects a_client))
            (page_client a_socket capped_objects a_client),
          page_client a_socket
            (with_cookie 2 ''abc''
               (page_objects (\<lambda>e a b. e) first_page capped_objects a_client))
            (page_client a_socket capped_objects a_client))
   \<and> searchEntries (searchResult
         (page_objects (\<lambda>e a b. e) (a_response 4 [''cn=b''] None)
            (with_cookie 2 ''abc''
               (page_objects (\<lambda>e a b. e) first_page capped_objects a_client))
            (page_client a_socket capped_objects a_client)))
       = [''cn=a'', ''cn=b'']"
proof -
  let ?paged = "some_options (Some 3) (Some (PagedBoolean True))"
  let ?plain = "some_options (Some 2) None"
  let ?open = "some_options None None"
  let ?r4 = "a_response 4 [''cn=a'', ''cn=b''] None"
  let ?r4' = "a_response 4 [''cn=b''] None"
  let ?r4'' = "a_response 4 [''cn=a''] None"
  let ?r32 = "a_response 32 [] None"
  let ?w = "a_world [] :: (string, string, string) world"
  have world: "?w\<lparr>w_responses := rs\<rparr> = a_world rs" for rs
    by (simp add: a_world_def)
  have opened: "ensure_connected (w_connect ?w) new_client = Inr a_client"
    by (simp add: ensure_connected_def a_world_def a_client_def new_client_def)
  have ready: "socket a_client = Some a_socket"
    "\<not> list_ex is_PagedResultsControl (controls_list None)"
    by (simp_all add: a_client_def new_client_def)
  have filter: "search_filter ?w (so_filter (some_options l p)) = Inr ''objectclass=*''" for l p
    by (simp add: search_filter_def some_options_def a_world_def)
  have st4: "rs_status ?r4 = SizeLimitExceeded" "rs_status ?r4' = SizeLimitExceeded"
    "rs_status ?r4'' = SizeLimitExceeded" "rs_status ?r4'' \<noteq> Success"
    by (simp_all add: a_response_def SizeLimitExceeded_def Success_def)
  have st32: "rs_status ?r32 \<noteq> Success" "rs_status ?r32 \<noteq> SizeLimitExceeded"
    by (simp_all add: a_response_def Success_def SizeLimitExceeded_def)
  have limit: "truthy (so_sizeLimit ?paged)" "truthy (so_sizeLimit ?plain)"
    "\<not> truthy (so_sizeLimit ?open)" "\<not> shouldPage (so_paged ?plain)"
    by (simp_all add: some_options_def)
  have "search (a_world [Responds first_page, Responds ?r4']) new_client ''dc=example'' ?paged None
        = search (a_world [Responds first_page, Responds (?r4'\<lparr>rs_status := Success\<rparr>)])
            new_client ''dc=example'' ?paged None"
    using search_sizeLimitExceeded_is_success
            [where w = ?w and ?c0.0 = new_client and ?c1.0 = a_client and ?s1.0 = a_socket
               and controls = None and options = ?paged and f = "''objectclass=*''"
               and r = ?r4' and before = "[Responds first_page]" and rest = "[]"
               and baseDN = "''dc=example''"]
      opened ready filter st4 limit
    by (simp add: world)
  then have later: "fst (search (a_world [Responds first_page, Responds ?r4']) new_client
                           ''dc=example'' ?paged None)
        = Resolved \<lparr> searchEntries = [''cn=a'', ''cn=b''], searchReferences = [] \<rparr>"
    by (simp add: run_defs)
  have "fst (search (a_world [Responds ?r4]) new_client ''dc=example'' ?plain None)
        = Resolved \<lparr> searchEntries =
                       map (\<lambda>e. w_toObject ?w e (so_attributes ?plain)
                                   (so_explicitBufferAttributes ?plain))
                         (rs_searchEntries ?r4),
                     searchReferences = concat (rs_searchReferences ?r4) \<rparr>"
    using search_sizeLimitExceeded_is_success
            [where w = ?w and ?c0.0 = new_client and ?c1.0 = a_client and ?s1.0 = a_socket
               and controls = None and options = ?plain and f = "''objectclass=*''"
               and r = ?r4 and rest = "[]" and baseDN = "''dc=example''"]
      opened ready filter st4 limit
    by (simp add: world)
  then have capped: "fst (search (a_world [Responds ?r4]) new_client ''dc=example'' ?plain None)
        = Resolved \<lparr> searchEntries = [''cn=a'', ''cn=b''], searchReferences = [] \<rparr>"
    by (simp add: a_world_def a_response_def)
  have "fst (search (a_world [Responds ?r32]) new_client ''dc=example'' ?plain None)
        = Rejected (StatusError (rs_status ?r32) (rs_errorMessage ?r32))"
    using search_sizeLimitExceeded_is_success
            [where w = ?w and ?c0.0 = new_client and ?c1.0 = a_client and ?s1.0 = a_socket
               and controls = None and options = ?plain and f = "''objectclass=*''"
               and r = ?r32 and rest = "[]" and baseDN = "''dc=example''"]
      opened ready filter st32
    by (simp add: world)
  then have other: "fst (search (a_world [Responds ?r32]) new_client ''dc=example'' ?plain None)
        = Rejected (StatusError 32 ''message'')"
    by (simp add: a_response_def)
  have "fst (search (a_world [Responds ?r4'']) new_client ''dc=example'' ?open None)
        = Rejected (StatusError (rs_status ?r4'') (rs_errorMessage ?r4''))"
    using search_sizeLimitExceeded_is_success
            [where w = ?w and ?c0.0 = new_client and ?c1.0 = a_client and ?s1.0 = a_socket
               and controls = None and options = ?open and f = "''objectclass=*''"
               and r = ?r4'' and rest = "[]" and baseDN = "''dc=example''"]
      opened ready filter st4 limit
    by (simp add: world)
  then have unlimited: "fst (search (a_world [Responds ?r4'']) new_client ''dc=example'' ?open None)
        = Rejected (StatusError 4 ''message'')"
    by (simp add: a_response_def)
  let ?objs2 = "with_cookie 2 ''abc''
                  (page_objects (\<lambda>e a b. e) first_page capped_objects a_client)"
  let ?c2 = "page_client a_socket capped_objects a_client"
  have second: "connected ?c2" "socket ?c2 = Some a_socket"
    "truthy (sr_sizeLimit (searchRequest ?objs2))"
    "next_page True 2 ?r4' (page_objects (\<lambda>e a b. e) ?r4' ?objs2 ?c2) = None"
    by (simp_all add: page_client_fields page_objects_def issued_request_def a_client_def
          new_client_def with_cookie_def capped_objects_def new_search_objects_def
          some_options_def next_page_def response_cookie_def a_response_def Let_def)
  have page: "sendSearch (\<lambda>e a b. e) True 2 [Responds ?r4'] ?objs2 ?c2
        = (Resolved (), page_objects (\<lambda>e a b. e) ?r4' ?objs2 ?c2,
           page_client a_socket ?objs2 ?c2)"
    using search_sizeLimitExceeded_is_success
            [where objs = ?objs2 and c = ?c2 and s = a_socket and r = ?r4' and paged = True
               and pageSize = 2 and toObject = "\<lambda>e a b. e" and rest = "[]"
               and w = ?w]
      second st4
    by blast
  have both: "searchEntries (searchResult (page_objects (\<lambda>e a b. e) ?r4' ?objs2 ?c2))
              = [''cn=a'', ''cn=b'']"
    by (simp add: page_objects_def with_cookie_def collect_def capped_objects_def
          new_search_objects_def first_page_def a_response_def Let_def)
  show ?thesis by (intro conjI later capped other unlimited page both)
qed

subsection \<open>The page loop\<close>

lemma nextMessageId_fresh: "fst (nextMessageId c) \<noteq> messageId c"
  by (simp add: nextMessageId_def Let_def MAX_MESSAGE_ID_def)

lemma response_cookie_absent:
  "response_cookie None = None"
  "\<not> list_ex is_PagedResultsControl cs \<Longrightarrow> response_cookie (Some cs) = None"
proof -
  show "response_cookie None = None" by (simp add: response_cookie_def)
  have "\<not> list_ex is_PagedResultsControl cs \<Longrightarrow> pagedResultsFromResponse cs = None"
    by (induction cs rule: pagedResultsFromResponse.induct) simp_all
  then show "\<not> list_ex is_PagedResultsControl cs \<Longrightarrow> response_cookie (Some cs) = None"
    by (simp add: response_cookie_def)
qed

text \<open>
  The cookie of a response is the cookie of the first Paged-Results control among its
  controls, when that control has a value with a cookie that is not empty.
\<close>

lemma pagedResultsFromResponse_first:
  "pagedResultsFromResponse cs = Some v \<longleftrightarrow>
     (\<exists>before after. cs = before @ PagedResultsControl v # after
        \<and> \<not> list_ex is_PagedResultsControl before)"
proof (induction cs rule: pagedResultsFromResponse.induct)
  case 1
  then show ?case by simp
next
  case (2 v' cs)
  show ?case
  proof
    assume "pagedResultsFromResponse (PagedResultsControl v' # cs) = Some v"
    then have "PagedResultsControl v' # cs = [] @ PagedResultsControl v # cs
               \<and> \<not> list_ex is_PagedResultsControl []"
      by simp
    then show "\<exists>before after. PagedResultsControl v' # cs = before @ PagedResultsControl v # after
                 \<and> \<not> list_ex is_PagedResultsControl before"
      by blast
  next
    assume "\<exists>before after. PagedResultsControl v' # cs = before @ PagedResultsControl v # after
              \<and> \<not> list_ex is_PagedResultsControl before"
    then obtain before after
      where split: "PagedResultsControl v' # cs = before @ PagedResultsControl v # after"
        and none: "\<not> list_ex is_PagedResultsControl before"
      by blast
    have "before = []"
    proof (cases before)
      case Nil
      then show ?thesis .
    next
      case (Cons x xs)
      then have "x = PagedResultsControl v'" using split by simp
      then show ?thesis using none Cons by simp
    qed
    then show "pagedResultsFromResponse (PagedResultsControl v' # cs) = Some v"
      using split by simp
  qed
next
  case (3 oid cs)
  show ?case
  proof
    assume "pagedResultsFromResponse (OtherControl oid # cs) = Some v"
    then obtain before after where "cs = before @ PagedResultsControl v # after"
      "\<not> list_ex is_PagedResultsControl before"
      using 3 by auto
    then have "OtherControl oid # cs = (OtherControl oid # before) @ PagedResultsControl v # after
               \<and> \<not> list_ex is_PagedResultsControl (OtherControl oid # before)"
      by simp
    then show "\<exists>before after. OtherControl oid # cs = before @ PagedResultsControl v # after
                 \<and> \<not> list_ex is_PagedResultsControl before"
      by blast
  next
    assume "\<exists>before after. OtherControl oid # cs = before @ PagedResultsControl v # after
              \<and> \<not> list_ex is_PagedResultsControl before"
    then obtain before after
      where split: "OtherControl oid # cs = before @ PagedResultsControl v # after"
        and none: "\<not> list_ex is_PagedResultsControl before"
      by blast
    obtain xs where before: "before = OtherControl oid # xs"
      using split by (cases before) simp_all
    then have "cs = xs @ PagedResultsControl v # after" "\<not> list_ex is_PagedResultsControl xs"
      using split none by simp_all
    then show "pagedResultsFromResponse (OtherControl oid # cs) = Some v"
      using 3 by auto
  qed
qed

lemma response_cookie_first:
  "response_cookie (Some cs) = Some k \<longleftrightarrow>
     (\<exists>before v after. cs = before @ PagedResultsControl (Some v) # after
        \<and> \<not> list_ex is_PagedResultsControl before \<and> cookie v = Some k \<and> k \<noteq> [])"
proof -
  have "response_cookie (Some cs) = Some k \<longleftrightarrow>
          (\<exists>v. pagedResultsFromResponse cs = Some (Some v) \<and> cookie v = Some k \<and> k \<noteq> [])"
    by (auto simp: response_cookie_def split: option.splits if_splits)
  then show ?thesis
    unfolding pagedResultsFromResponse_first by blast
qed

lemma response_cookie_nonempty: "response_cookie cs = Some k \<Longrightarrow> k \<noteq> []"
  by (auto simp: response_cookie_def split: option.splits if_splits)

lemma with_cookie_fields:
  "\<exists>v. cookie v = Some k
       \<and> pagedResultsControl (with_cookie pageSize k objs) = Some (Some v)
       \<and> searchRequest (with_cookie pageSize k objs)
           = (searchRequest objs)\<lparr> sr_controls :=
               map (\<lambda>x. if is_PagedResultsControl x then PagedResultsControl (Some v) else x)
                 (sr_controls (searchRequest objs)) \<rparr>"
  by (simp add: with_cookie_def Let_def)

text \<open>
  C3, as the code has it. A page of a paged search has been answered with an accepted
  status. The loop ends with this page when the page holds neither an entry nor a
  reference, or when the response has no Paged-Results control with a cookie of
  non-zero length (none at all, in particular); one request has then been written.
  Otherwise the loop goes on: the request control takes the cookie of the response, and
  the next request is written with a message id that differs from the one before, the
  same fields, and the controls with the new cookie.
\<close>

theorem paged_loop_step:
  assumes "connected c" and "socket c = Some s"
    and "pagedResultsControl objs \<noteq> None"
    and "check_status (searchRequest objs) r = None"
  shows
    "((rs_searchEntries r = [] \<and> rs_searchReferences r = [])
        \<or> response_cookie (rs_controls r) = None \<longrightarrow>
       sendSearch toObject True pageSize (Responds r # rest) objs c
         = (Resolved (), page_objects toObject r objs c, page_client s objs c)
       \<and> wire (page_client s objs c)
           = wire c @ [(sock_ref s, SearchRequest (issued_request objs c))])
     \<and> ((rs_searchEntries r \<noteq> [] \<or> rs_searchReferences r \<noteq> [])
          \<and> response_cookie (rs_controls r) = Some k \<longrightarrow>
         sendSearch toObject True pageSize (Responds r # rest) objs c
           = sendSearch toObject True pageSize rest
               (with_cookie pageSize k (page_objects toObject r objs c)) (page_client s objs c)
         \<and> (\<exists>v objs4 c4.
               issue (with_cookie pageSize k (page_objects toObject r objs c))
                 (page_client s objs c) = Inr (objs4, c4)
               \<and> cookie v = Some k \<and> k \<noteq> []
               \<and> pagedResultsControl objs4 = Some (Some v)
               \<and> searchRequest objs4
                   = (searchRequest objs)
                       \<lparr> sr_messageId := fst (nextMessageId (page_client s objs c)),
                         sr_controls :=
                           map (\<lambda>x. if is_PagedResultsControl x
                                     then PagedResultsControl (Some v) else x)
                             (sr_controls (searchRequest objs)) \<rparr>
               \<and> sr_messageId (searchRequest objs4) \<noteq> sr_messageId (issued_request objs c)
               \<and> wire c4 = wire c @ [(sock_ref s, SearchRequest (issued_request objs c)),
                                      (sock_ref s, SearchRequest (searchRequest objs4))]))
     \<and> response_cookie None = None
     \<and> (\<not> list_ex is_PagedResultsControl cs \<longrightarrow> response_cookie (Some cs) = None)"
proof -
  let ?objs2 = "page_objects toObject r objs c"
  let ?c3 = "page_client s objs c"
  have step: "sendSearch toObject True pageSize (Responds r # rest) objs c =
      (case next_page True pageSize r ?objs2 of
         Some objs3 \<Rightarrow> sendSearch toObject True pageSize rest objs3 ?c3
       | None \<Rightarrow> (Resolved (), ?objs2, ?c3))"
    unfolding sendSearch_Responds [OF assms(1,2)] assms(4) by simp
  have ctl: "pagedResultsControl ?objs2 \<noteq> None"
    using assms(3) by (simp add: page_objects_def)
  have stop: "sendSearch toObject True pageSize (Responds r # rest) objs c
              = (Resolved (), ?objs2, ?c3)"
    if "(rs_searchEntries r = [] \<and> rs_searchReferences r = [])
        \<or> response_cookie (rs_controls r) = None"
  proof -
    have "next_page True pageSize r ?objs2 = None"
      using that by (auto simp: next_page_def)
    then show ?thesis by (simp only: step option.case)
  qed
  have go: "sendSearch toObject True pageSize (Responds r # rest) objs c
            = sendSearch toObject True pageSize rest (with_cookie pageSize k ?objs2) ?c3"
    if "rs_searchEntries r \<noteq> [] \<or> rs_searchReferences r \<noteq> []"
      "response_cookie (rs_controls r) = Some k"
  proof -
    have "next_page True pageSize r ?objs2 = Some (with_cookie pageSize k ?objs2)"
      using that ctl by (auto simp: next_page_def)
    then show ?thesis by (simp only: step option.case)
  qed
  have following: "\<exists>v objs4 c4.
         issue (with_cookie pageSize k ?objs2) ?c3 = Inr (objs4, c4)
         \<and> cookie v = Some k \<and> k \<noteq> []
         \<and> pagedResultsControl objs4 = Some (Some v)
         \<and> searchRequest objs4
             = (searchRequest objs)
                 \<lparr> sr_messageId := fst (nextMessageId ?c3),
                   sr_controls :=
                     map (\<lambda>x. if is_PagedResultsControl x then PagedResultsControl (Some v) else x)
                       (sr_controls (searchRequest objs)) \<rparr>
         \<and> sr_messageId (searchRequest objs4) \<noteq> sr_messageId (issued_request objs c)
         \<and> wire c4 = wire c @ [(sock_ref s, SearchRequest (issued_request objs c)),
                                (sock_ref s, SearchRequest (searchRequest objs4))]"
    if "response_cookie (rs_controls r) = Some k"
  proof -
    let ?objs3 = "with_cookie pageSize k ?objs2"
    obtain v where v: "cookie v = Some k" "pagedResultsControl ?objs3 = Some (Some v)"
      "searchRequest ?objs3
         = (searchRequest ?objs2)\<lparr> sr_controls :=
             map (\<lambda>x. if is_PagedResultsControl x then PagedResultsControl (Some v) else x)
               (sr_controls (searchRequest ?objs2)) \<rparr>"
      using with_cookie_fields [of k pageSize ?objs2] by blast
    have conn: "connected ?c3" "socket ?c3 = Some s"
      using assms(1,2) by (simp_all add: page_client_fields)
    let ?objs4 = "?objs3\<lparr>searchRequest := issued_request ?objs3 ?c3\<rparr>"
    let ?c4 = "issued_client s ?objs3 ?c3"
    have sent: "issue ?objs3 ?c3 = Inr (?objs4, ?c4)"
      by (rule issue_connected [OF conn])
    have request: "searchRequest ?objs4
             = (searchRequest objs)
                 \<lparr> sr_messageId := fst (nextMessageId ?c3),
                   sr_controls :=
                     map (\<lambda>x. if is_PagedResultsControl x then PagedResultsControl (Some v) else x)
                       (sr_controls (searchRequest objs)) \<rparr>"
    proof -
      have "searchRequest ?objs4
            = (searchRequest ?objs3)\<lparr>sr_messageId := fst (nextMessageId ?c3)\<rparr>"
        by (simp add: issued_request_def)
      also have "\<dots> = (searchRequest objs)
                 \<lparr> sr_messageId := fst (nextMessageId ?c3),
                   sr_controls :=
                     map (\<lambda>x. if is_PagedResultsControl x then PagedResultsControl (Some v) else x)
                       (sr_controls (searchRequest objs)) \<rparr>"
        unfolding v(3) by (simp add: page_objects_def issued_request_def)
      finally show ?thesis .
    qed
    have fresh: "sr_messageId (searchRequest ?objs4) \<noteq> sr_messageId (issued_request objs c)"
      using nextMessageId_fresh [of ?c3]
      by (simp add: issued_request_def page_client_fields)
    have written: "wire ?c4 = wire c @ [(sock_ref s, SearchRequest (issued_request objs c)),
                                         (sock_ref s, SearchRequest (searchRequest ?objs4))]"
      by (simp add: issued_client_def page_client_fields)
    have ctl4: "pagedResultsControl ?objs4 = Some (Some v)"
      using v(2) by simp
    show ?thesis
      using sent v(1) response_cookie_nonempty [OF that] ctl4 request fresh written
      by blast
  qed
  show ?thesis
    using stop go following response_cookie_absent(1) response_cookie_absent(2) [of cs]
    by (simp add: page_client_fields)
qed

theorem paged_loop_step_witness:
  "sendSearch (\<lambda>e a b. e) True 100 [Responds first_page, Responds last_page]
       paged_objects a_client
     = sendSearch (\<lambda>e a b. e) True 100 [Responds last_page]
         (with_cookie 100 ''abc'' (page_objects (\<lambda>e a b. e) first_page paged_objects a_client))
         (page_client a_socket paged_objects a_client)
   \<and> fst (sendSearch (\<lambda>e a b. e) True 100 [Responds first_page, Responds last_page]
            paged_objects a_client) = Resolved ()
   \<and> searchEntries (searchResult (fst (snd
         (sendSearch (\<lambda>e a b. e) True 100 [Responds first_page, Responds last_page]
            paged_objects a_client)))) = [''cn=a'', ''cn=b'']
   \<and> map (\<lambda>(s, m). (message_messageId m,
                      case m of SearchRequest q \<Rightarrow> sr_controls q | _ \<Rightarrow> []))
         (wire (snd (snd
           (sendSearch (\<lambda>e a b. e) True 100 [Responds first_page, Responds last_page]
              paged_objects a_client))))
       = [(2, [PagedResultsControl (Some \<lparr> size = 100, cookie = None \<rparr>)]),
          (3, [PagedResultsControl (Some \<lparr> size = 100, cookie = Some ''abc'' \<rparr>)])]"
proof -
  have ready: "connected a_client" "socket a_client = Some a_socket"
    "pagedResultsControl paged_objects \<noteq> None"
    "check_status (searchRequest paged_objects) first_page = None"
    by (simp_all add: run_defs)
  have page: "rs_searchEntries first_page \<noteq> [] \<or> rs_searchReferences first_page \<noteq> []"
    "response_cookie (rs_controls first_page) = Some ''abc''"
    by (simp_all add: run_defs)
  have step: "sendSearch (\<lambda>e a b. e) True 100 [Responds first_page, Responds last_page]
       paged_objects a_client
     = sendSearch (\<lambda>e a b. e) True 100 [Responds last_page]
         (with_cookie 100 ''abc'' (page_objects (\<lambda>e a b. e) first_page paged_objects a_client))
         (page_client a_socket paged_objects a_client)"
    using paged_loop_step [OF ready, where k = "''abc''" and toObject = "\<lambda>e a b. e"
                             and pageSize = 100 and rest = "[Responds last_page]"] page
    by blast
  have run: "fst (sendSearch (\<lambda>e a b. e) True 100 [Responds first_page, Responds last_page]
            paged_objects a_client) = Resolved ()"
    "searchEntries (searchResult (fst (snd
         (sendSearch (\<lambda>e a b. e) True 100 [Responds first_page, Responds last_page]
            paged_objects a_client)))) = [''cn=a'', ''cn=b'']"
    "map (\<lambda>(s, m). (message_messageId m,
                      case m of SearchRequest q \<Rightarrow> sr_controls q | _ \<Rightarrow> []))
         (wire (snd (snd
           (sendSearch (\<lambda>e a b. e) True 100 [Responds first_page, Responds last_page]
              paged_objects a_client))))
       = [(2, [PagedResultsControl (Some \<lparr> size = 100, cookie = None \<rparr>)]),
          (3, [PagedResultsControl (Some \<lparr> size = 100, cookie = Some ''abc'' \<rparr>)])]"
    by (simp_all add: run_defs)
  show ?thesis using step run by blast
qed

text \<open>
  C3, as the specification states it, fails: a page without entries and references ends
  the loop although the cookie of the response is not empty. The search resolves after
  the one request, and the second response is never asked for.
\<close>

theorem paged_loop_ends_with_cookie_counterexample:
  "response_cookie (rs_controls empty_page) = Some ''abc''
   \<and> fst (search (a_world [Responds empty_page, Responds last_page]) a_client ''dc=example''
            (some_options None (Some (PagedBoolean True))) None)
       = Resolved \<lparr> searchEntries = [], searchReferences = [] \<rparr>
   \<and> map (\<lambda>(s, m). message_messageId m)
         (wire (snd (search (a_world [Responds empty_page, Responds last_page]) a_client
                       ''dc=example'' (some_options None (Some (PagedBoolean True))) None)))
       = [2]"
  by (simp add: run_defs)

subsection \<open>Matching\<close>

text \<open>
  C2. An And filter without children matches every entry. An Or filter without children
  matches every entry too: \<open>OrFilter.matches\<close> returns true for an empty list, where the
  claim (and RFC 4526, which the code cites at that line) has false.
\<close>

theorem empty_and_or_match:
  "matches g toLowerCase (AndFilter []) objectToCheck strictAttributeCase = Inr True
   \<and> matches g toLowerCase (OrFilter []) objectToCheck strictAttributeCase = Inr True"
  by simp

lemma EqualityFilter_matches_strings:
  "g objectToCheck attribute strict = Some (Str y) \<Longrightarrow>
   matches g toLowerCase (EqualityFilter attribute (Str x)) objectToCheck strict
     = Inr (if strict then x = y else toLowerCase x = toLowerCase y)"
  by (simp add: EqualityFilter_matches_def)

lemma EqualityFilter_matches_bytes_string:
  "g objectToCheck attribute strict = Some (Str y) \<Longrightarrow>
   matches g toLowerCase (EqualityFilter attribute (Buf i bytes)) objectToCheck strict
     = Inr (if strict then toString_utf8 bytes = y
            else toLowerCase (toString_utf8 bytes) = toLowerCase y)"
  by (simp add: EqualityFilter_matches_def)

lemma EqualityFilter_matches_absent:
  "g objectToCheck attribute strict = None \<Longrightarrow>
   matches g toLowerCase (EqualityFilter attribute v) objectToCheck strict = Inr False"
  by (simp add: EqualityFilter_matches_def)

text \<open>
  C7. When the value of the filter and the value of the entry are both Buffers, the
  result of \<open>matches\<close> is whether they are the same object; their bytes are not looked at.
\<close>

theorem EqualityFilter_matches_buffers_by_identity:
  "g objectToCheck attribute strict = Some (Buf j bytes') \<Longrightarrow>
   matches g toLowerCase (EqualityFilter attribute (Buf i bytes)) objectToCheck strict
     = Inr (i = j)"
  by (simp add: EqualityFilter_matches_def)

theorem EqualityFilter_matches_buffers_by_identity_witness:
  "matches own_property ascii_toLowerCase (EqualityFilter ''cn'' (Buf 1 ''a''))
       [(''cn'', Buf 2 ''a'')] True
     = Inr False
   \<and> matches own_property ascii_toLowerCase (EqualityFilter ''cn'' (Buf 1 ''a''))
       [(''cn'', Buf 2 ''a'')] False
     = Inr False"
  using EqualityFilter_matches_buffers_by_identity
          [where g = own_property and objectToCheck = "[(''cn'', Buf 2 ''a'')]"
             and attribute = "''cn''" and strict = True and j = 2 and bytes' = "''a''"
             and i = 1 and bytes = "''a''" and toLowerCase = ascii_toLowerCase]
        EqualityFilter_matches_buffers_by_identity
          [where g = own_property and objectToCheck = "[(''cn'', Buf 2 ''a'')]"
             and attribute = "''cn''" and strict = False and j = 2 and bytes' = "''a''"
             and i = 1 and bytes = "''a''" and toLowerCase = ascii_toLowerCase]
  by (simp add: own_property_def)

subsection \<open>Equality of relative distinguished names\<close>

lemma assign_keys: "set (map fst (assign name val kvs)) = insert name (set (map fst kvs))"
proof (induction kvs)
  case Nil
  then show ?case by simp
next
  case (Cons p kvs)
  obtain k v where p: "p = (k, v)" by (cases p)
  show ?case using Cons.IH by (auto simp: p)
qed

lemma assign_distinct: "distinct (map fst kvs) \<Longrightarrow> distinct (map fst (assign name val kvs))"
proof (induction kvs)
  case Nil
  then show ?case by simp
next
  case (Cons p kvs)
  obtain k v where p: "p = (k, v)" by (cases p)
  show ?case
    using Cons p by (auto simp: assign_keys [simplified])
qed

lemma equals_loop_same_keys:
  "equals_loop ks ks this other
     = (\<forall>k \<in> set ks. map_of (attrs this) k = map_of (attrs other) k)"
  by (induction ks) auto

lemma equals_loop_true:
  "equals_loop ks ks' this other \<Longrightarrow> length ks = length ks' \<Longrightarrow> ks = ks'"
  by (induction ks ks' this other rule: equals_loop.induct) (auto split: if_splits)

text \<open>
  C8, as the code has it: two RDNs are equal exactly when they hold the same pairs of
  attribute name and value, in whatever order the names were set; names and values are
  both compared as they are written.
\<close>

theorem RDN_equals_same_pairs:
  assumes "distinct (map fst (attrs this))" and "distinct (map fst (attrs other))"
  shows "equals this other \<longleftrightarrow> set (attrs this) = set (attrs other)"
proof
  assume eq: "equals this other"
  let ?ours = "map fst (attrs this)" and ?theirs = "map fst (attrs other)"
  have len: "length ?ours = length ?theirs"
    and loop: "equals_loop (sort ?ours) (sort ?theirs) this other"
    using eq by (auto simp: equals_def Let_def split: if_splits)
  have keys: "sort ?ours = sort ?theirs"
    using equals_loop_true [OF loop] len by simp
  then have dom: "set ?ours = set ?theirs"
    by (metis set_sort)
  have vals: "\<forall>k \<in> set ?ours. map_of (attrs this) k = map_of (attrs other) k"
    using loop [unfolded keys [symmetric] equals_loop_same_keys] by simp
  have "map_of (attrs this) k = map_of (attrs other) k" for k
  proof (cases "k \<in> set ?ours")
    case True
    then show ?thesis using vals by blast
  next
    case False
    then have "map_of (attrs this) k = None" "map_of (attrs other) k = None"
      using dom by (simp_all add: map_of_eq_None_iff)
    then show ?thesis by simp
  qed
  then have "map_of (attrs this) = map_of (attrs other)" by (rule ext)
  then show "set (attrs this) = set (attrs other)"
    using map_of_inject_set [OF assms] by simp
next
  assume same: "set (attrs this) = set (attrs other)"
  let ?ours = "map fst (attrs this)" and ?theirs = "map fst (attrs other)"
  have dom: "set ?ours = set ?theirs" using same by simp
  have len: "length ?ours = length ?theirs"
    using assms dom by (metis distinct_card)
  have keys: "sort ?ours = sort ?theirs"
    using assms dom by (intro sorted_distinct_set_unique) simp_all
  have "map_of (attrs this) = map_of (attrs other)"
    using map_of_inject_set [OF assms] same by simp
  then have "equals_loop (sort ?ours) (sort ?ours) this other"
    by (simp add: equals_loop_same_keys)
  then show "equals this other"
    using len keys by (simp add: equals_def Let_def)
qed

theorem RDN_equals_same_pairs_witness:
  "equals \<lparr>attrs = [(''cn'', ''Jim''), (''ou'', ''People'')]\<rparr>
          \<lparr>attrs = [(''ou'', ''People''), (''cn'', ''Jim'')]\<rparr>
   \<and> equals (RDN_set ''ou'' ''People'' (RDN_set ''cn'' ''Jim'' \<lparr>attrs = []\<rparr>))
            (RDN_set ''cn'' ''Jim'' (RDN_set ''ou'' ''People'' \<lparr>attrs = []\<rparr>))
   \<and> equals \<lparr>attrs = [(''cn'', ''Jim'')]\<rparr> \<lparr>attrs = [(''cn'', ''jim'')]\<rparr> = False"
proof -
  have a: "equals \<lparr>attrs = [(''cn'', ''Jim''), (''ou'', ''People'')]\<rparr>
                  \<lparr>attrs = [(''ou'', ''People''), (''cn'', ''Jim'')]\<rparr>"
    using RDN_equals_same_pairs
            [of "\<lparr>attrs = [(''cn'', ''Jim''), (''ou'', ''People'')]\<rparr>"
                "\<lparr>attrs = [(''ou'', ''People''), (''cn'', ''Jim'')]\<rparr>"]
    by auto
  have b: "equals (RDN_set ''ou'' ''People'' (RDN_set ''cn'' ''Jim'' \<lparr>attrs = []\<rparr>))
                  (RDN_set ''cn'' ''Jim'' (RDN_set ''ou'' ''People'' \<lparr>attrs = []\<rparr>))"
    using a by (simp add: RDN_set_def)
  have c: "equals \<lparr>attrs = [(''cn'', ''Jim'')]\<rparr> \<lparr>attrs = [(''cn'', ''jim'')]\<rparr> = False"
    using RDN_equals_same_pairs
            [of "\<lparr>attrs = [(''cn'', ''Jim'')]\<rparr>" "\<lparr>attrs = [(''cn'', ''jim'')]\<rparr>"]
    by simp
  show ?thesis using a b c by simp
qed

text \<open>
  C8, as the specification states it, fails: the names \<open>CN\<close> and \<open>cn\<close> differ only in
  case and carry the same value, and \<open>equals\<close> is false.
\<close>

theorem RDN_equals_name_case_counterexample:
  "same_pairs_ignoring_name_case \<lparr>attrs = [(''CN'', ''Jim'')]\<rparr> \<lparr>attrs = [(''cn'', ''Jim'')]\<rparr>
   \<and> equals \<lparr>attrs = [(''CN'', ''Jim'')]\<rparr> \<lparr>attrs = [(''cn'', ''Jim'')]\<rparr> = False"
  by code_simp

subsection \<open>Decoding UTF-8\<close>

text \<open>
  The decoder keeps the UTF-8 form of every character, so the bytes of a string, which
  are the UTF-8 forms of its characters in a row, are decoded to the string itself; only
  bytes that are not UTF-8 are changed.
\<close>

lemma continuation_numeral [simp]:
  "continuation (numeral k) lo hi [] = 0"
  "continuation (numeral k) lo hi (c # cs) =
     (if lo \<le> of_char c \<and> of_char c \<le> hi
      then Suc (continuation (pred_numeral k) 0x80 0xBF cs) else 0)"
  by (simp_all add: numeral_eq_Suc)

lemma one_byte:
  "a < 128 \<Longrightarrow> toString_utf8 (char_of a # rest) = char_of (a :: nat) # toString_utf8 rest"
  by simp

lemma two_bytes:
  "2 \<le> a \<Longrightarrow> a \<le> 31 \<Longrightarrow> b < 64 \<Longrightarrow>
   toString_utf8 (char_of (0xC0 + a) # char_of (0x80 + b) # rest)
     = char_of (0xC0 + a :: nat) # char_of (0x80 + b :: nat) # toString_utf8 rest"
  by (simp add: utf8_lead_def)

lemma three_bytes:
  "a \<le> 15 \<Longrightarrow> b < 64 \<Longrightarrow> c < 64 \<Longrightarrow> (a = 0 \<longrightarrow> 32 \<le> b) \<Longrightarrow> (a = 13 \<longrightarrow> b < 32) \<Longrightarrow>
   toString_utf8 (char_of (0xE0 + a) # char_of (0x80 + b) # char_of (0x80 + c) # rest)
     = char_of (0xE0 + a :: nat) # char_of (0x80 + b :: nat) # char_of (0x80 + c :: nat)
         # toString_utf8 rest"
  by (auto simp: utf8_lead_def)

lemma four_bytes:
  "a \<le> 4 \<Longrightarrow> b < 64 \<Longrightarrow> c < 64 \<Longrightarrow> d < 64 \<Longrightarrow> (a = 0 \<longrightarrow> 16 \<le> b) \<Longrightarrow> (a = 4 \<longrightarrow> b < 16) \<Longrightarrow>
   toString_utf8 (char_of (0xF0 + a) # char_of (0x80 + b) # char_of (0x80 + c)
                    # char_of (0x80 + d) # rest)
     = char_of (0xF0 + a :: nat) # char_of (0x80 + b :: nat) # char_of (0x80 + c :: nat)
         # char_of (0x80 + d :: nat) # toString_utf8 rest"
  by (auto simp: utf8_lead_def)

lemma div_bounds:
  fixes u :: nat
  assumes "0 < q"
  shows "lo * q \<le> u \<Longrightarrow> lo \<le> u div q" and "u < hi * q \<Longrightarrow> u div q < hi"
  using assms by (simp_all add: less_eq_div_iff_mult_less_eq div_less_iff_less_mult)

lemma utf8_bytes_kept:
  assumes "scalar_value u"
  shows "toString_utf8 (utf8_bytes u @ rest) = utf8_bytes u @ toString_utf8 rest"
proof -
  consider (one) "u < 0x80" | (two) "0x80 \<le> u" "u < 0x800" | (three) "0x800 \<le> u" "u < 0x10000"
    | (four) "0x10000 \<le> u" "u < 0x110000"
    using assms unfolding scalar_value_def by linarith
  then show ?thesis
  proof cases
    case one
    then show ?thesis by (simp add: utf8_bytes_def)
  next
    case two
    have "2 \<le> u div 64" "u div 64 < 32"
      using two by (auto intro!: div_bounds)
    then show ?thesis
      using two two_bytes [of "u div 64" "u mod 64" rest] by (simp add: utf8_bytes_def)
  next
    case three
    let ?a = "u div 4096" and ?b = "u div 64 mod 64" and ?c = "u mod 64"
    have split: "u div 64 div 64 = ?a"
      by (simp add: div_mult2_eq [symmetric])
    have parts: "u div 64 = ?a * 64 + ?b"
      using div_mult_mod_eq [of "u div 64" 64] split by simp
    have a: "?a < 16" using three by (auto intro!: div_bounds)
    have low: "32 \<le> ?b" if "?a = 0"
    proof -
      have "32 \<le> u div 64" using three by (auto intro!: div_bounds)
      then show ?thesis using parts that by simp
    qed
    have high: "?b < 32" if "?a = 13"
    proof -
      have "u < 0xE000"
      proof (rule ccontr)
        assume "\<not> u < 0xE000"
        then have "14 * 4096 \<le> u" by simp
        then have "14 \<le> ?a" by (auto intro!: div_bounds)
        then show False using that by simp
      qed
      then have "u < 0xD800" using assms by (simp add: scalar_value_def)
      then have "u div 64 < 864" by (auto intro!: div_bounds)
      then show ?thesis using parts that by simp
    qed
    show ?thesis
      using three three_bytes [of ?a ?b ?c rest] a low high by (simp add: utf8_bytes_def)
  next
    case four
    let ?a = "u div 262144" and ?b = "u div 4096 mod 64" and ?c = "u div 64 mod 64"
    let ?d = "u mod 64"
    have split: "u div 4096 div 64 = ?a"
      by (simp add: div_mult2_eq [symmetric])
    have parts: "u div 4096 = ?a * 64 + ?b"
      using div_mult_mod_eq [of "u div 4096" 64] split by simp
    have a: "?a < 5" using four by (auto intro!: div_bounds)
    have low: "16 \<le> ?b" if "?a = 0"
    proof -
      have "16 \<le> u div 4096" using four by (auto intro!: div_bounds)
      then show ?thesis using parts that by simp
    qed
    have high: "?b < 16" if "?a = 4"
    proof -
      have "u div 4096 < 272" using four by (auto intro!: div_bounds)
      then show ?thesis using parts that by simp
    qed
    show ?thesis
      using four four_bytes [of ?a ?b ?c ?d rest] a low high by (simp add: utf8_bytes_def)
  qed
qed

lemma utf8_kept:
  "\<forall>u \<in> set us. scalar_value u \<Longrightarrow> toString_utf8 (utf8 us) = utf8 us"
  by (induction us) (simp_all add: utf8_def utf8_bytes_kept)

lemma toString_utf8_ascii:
  "\<forall>c \<in> set bytes. of_char c < (0x80 :: nat) \<Longrightarrow> toString_utf8 bytes = bytes"
  by (induction bytes) simp_all

subsection \<open>Filters through BER\<close>






lemma drop_past_prefix2: "drop (Suc (Suc (length pre))) (pre @ x # y # rest) = rest"
  by (induction pre) simp_all

lemma nth_after_prefix: "(pre @ x # rest) ! length pre = x"
  by simp














lemmas SearchFilter_defs =
  SearchFilter_and_def SearchFilter_or_def SearchFilter_not_def SearchFilter_equalityMatch_def
  SearchFilter_substrings_def SearchFilter_greaterOrEqual_def SearchFilter_lessOrEqual_def
  SearchFilter_present_def SearchFilter_approxMatch_def SearchFilter_extensibleMatch_def





text \<open>
  The parser always returns with the recursion bound that \<open>parseBinary\<close> gives it: a
  filter that is read moves the offset forward and leaves it inside the buffer, so the bytes
  that remain bound the calls that remain.
\<close>

lemma readLength_props:
  assumes "readLength off r = Inr (Some (off', r1))"
  shows "buf r1 = buf r" and "offset r1 = offset r" and "off < off'" and "off' \<le> length (buf r)"
  using assms
  by (auto simp: readLength_def Let_def split: if_splits)

lemma readSequence_props:
  assumes "readSequence r = Inr (Some t, r1)"
  shows "buf r1 = buf r" and "offset r + 2 \<le> offset r1" and "offset r1 \<le> length (buf r)"
proof -
  obtain off r0 where rl: "readLength (offset r + 1) r = Inr (Some (off, r0))"
    and r1: "r1 = r0\<lparr>offset := off\<rparr>"
    using assms
    by (auto simp: readSequence_def split: option.splits sum.splits)
  show "buf r1 = buf r" using readLength_props(1) [OF rl] r1 by simp
  show "offset r + 2 \<le> offset r1" using readLength_props(3) [OF rl] r1 by simp
  show "offset r1 \<le> length (buf r)" using readLength_props(4) [OF rl] r1 by simp
qed

lemma readSequence_None:
  assumes "readSequence r = Inr (None, r1)"
  shows "r1 = r"
  using assms by (auto simp: readSequence_def split: option.splits sum.splits)

lemma readString_props:
  assumes "readString r = Inr (a, r1)" and "offset r \<le> length (buf r)"
  shows "buf r1 = buf r" and "offset r \<le> offset r1" and "offset r1 \<le> length (buf r)"
proof -
  have "buf r1 = buf r \<and> offset r \<le> offset r1 \<and> offset r1 \<le> length (buf r)"
  proof (cases "peek r")
    case None
    then show ?thesis using assms by (simp add: readString_def)
  next
    case (Some b)
    show ?thesis
    proof (cases "readLength (offset r + 1) r")
      case (Inl e)
      then show ?thesis using assms Some by (simp add: readString_def split: if_splits)
    next
      case (Inr x)
      show ?thesis
      proof (cases x)
        case None
        then show ?thesis using assms Some Inr by (simp add: readString_def split: if_splits)
      next
        case (Some p)
        obtain off r0 where p: "p = (off, r0)" by (cases p)
        have rl: "readLength (offset r + 1) r = Inr (Some (off, r0))"
          using Inr Some p by simp
        note props = readLength_props [OF rl]
        show ?thesis
          using assms \<open>peek r = Some b\<close> rl props
          by (auto simp: readString_def split: if_splits)
      qed
    qed
  qed
  then show "buf r1 = buf r" and "offset r \<le> offset r1" and "offset r1 \<le> length (buf r)"
    by simp_all
qed

lemma EqualityFilter_parseFilter_props:
  assumes "EqualityFilter_parseFilter toLowerCase r = Inr (f, r')" and "offset r \<le> length (buf r)"
  shows "buf r' = buf r" and "offset r \<le> offset r'" and "offset r' \<le> length (buf r)"
proof -
  obtain a r1 where first: "readString r = Inr (a, r1)"
    using assms(1) by (auto simp: EqualityFilter_parseFilter_def split: sum.splits)
  note p1 = readString_props [OF first assms(2)]
  obtain v where second: "readString r1 = Inr (v, r')"
    using assms(1) first
    by (auto simp: EqualityFilter_parseFilter_def Let_def split: sum.splits if_splits option.splits)
  have "offset r1 \<le> length (buf r1)" using p1 by simp
  note p2 = readString_props [OF second this]
  show "buf r' = buf r" using p1 p2 by simp
  show "offset r \<le> offset r'" using p1 p2 by simp
  show "offset r' \<le> length (buf r)" using p1 p2 by simp
qed

lemma parse_progress:
  "parse toLowerCase n r = Some (Inr (f, r')) \<Longrightarrow>
     buf r' = buf r \<and> offset r < offset r' \<and> offset r' \<le> length (buf r)"
  "parseSet toLowerCase n end fs r = Some (Inr (fs', r')) \<Longrightarrow> offset r \<le> length (buf r) \<Longrightarrow>
     buf r' = buf r \<and> offset r \<le> offset r' \<and> offset r' \<le> length (buf r)"
proof (induction toLowerCase n r and toLowerCase n "end" fs r arbitrary: f r' and fs' r'
       rule: parse_parseSet.induct)
  case (1 toLowerCase reader)
  then show ?case by simp
next
  case (2 toLowerCase n reader)
  obtain t r1 where head: "readSequence reader = Inr (Some t, r1)"
    using "2.prems"
    by (auto split: sum.splits option.splits prod.splits)
  note h = readSequence_props [OF head]
  have r1: "offset r1 \<le> length (buf r1)" using h by simp
  consider (conj) "t = SearchFilter_and" | (eq) "t \<noteq> SearchFilter_and" "t = SearchFilter_equalityMatch"
    | (neg) "t \<noteq> SearchFilter_and" "t = SearchFilter_not"
    | (disj) "t \<noteq> SearchFilter_and" "t = SearchFilter_or" | (other) "t \<noteq> SearchFilter_and"
      "t \<noteq> SearchFilter_equalityMatch" "t \<noteq> SearchFilter_not" "t \<noteq> SearchFilter_or"
    by blast
  then show ?case
  proof cases
    case conj
    then obtain fs r2 where children: "parseSet toLowerCase n (offset r1 + len r1) [] r1 = Some (Inr (fs, r2))"
      and res: "r' = r2"
      using "2.prems" head by (auto split: option.splits sum.splits)
    have "buf r2 = buf r1 \<and> offset r1 \<le> offset r2 \<and> offset r2 \<le> length (buf r1)"
      using "2.IH"(1) [OF head refl refl conj children r1] .
    then show ?thesis using h res by simp
  next
    case eq
    then have "EqualityFilter_parseFilter toLowerCase r1 = Inr (f, r')"
      using "2.prems" head by (simp add: SearchFilter_defs)
    from EqualityFilter_parseFilter_props [OF this r1] show ?thesis using h by simp
  next
    case neg
    then have tags: "t \<noteq> SearchFilter_approxMatch" "t \<noteq> SearchFilter_equalityMatch"
      "t \<noteq> SearchFilter_extensibleMatch" "t \<noteq> SearchFilter_greaterOrEqual"
      "t \<noteq> SearchFilter_lessOrEqual"
      by (simp_all add: SearchFilter_defs)
    obtain inner r2 where child: "parse toLowerCase n r1 = Some (Inr (inner, r2))"
      and res: "r' = r2"
      using "2.prems" head neg tags by (auto split: option.splits sum.splits)
    have "buf r2 = buf r1 \<and> offset r1 < offset r2 \<and> offset r2 \<le> length (buf r1)"
      using "2.IH"(2) [OF head refl refl neg(1) tags neg(2) child] .
    then show ?thesis using h res by simp
  next
    case disj
    then have tags: "t \<noteq> SearchFilter_approxMatch" "t \<noteq> SearchFilter_equalityMatch"
      "t \<noteq> SearchFilter_extensibleMatch" "t \<noteq> SearchFilter_greaterOrEqual"
      "t \<noteq> SearchFilter_lessOrEqual" "t \<noteq> SearchFilter_not"
      by (simp_all add: SearchFilter_defs)
    obtain fs r2 where children: "parseSet toLowerCase n (offset r1 + len r1) [] r1 = Some (Inr (fs, r2))"
      and res: "r' = r2"
      using "2.prems" head disj tags by (auto split: option.splits sum.splits)
    have "buf r2 = buf r1 \<and> offset r1 \<le> offset r2 \<and> offset r2 \<le> length (buf r1)"
      using "2.IH"(3) [OF head refl refl disj(1) tags disj(2) children r1] .
    then show ?thesis using h res by simp
  next
    case other
    then show ?thesis
      using "2.prems" head by (simp split: if_splits)
  qed
next
  case (3 toLowerCase "end" filters reader)
  then show ?case by simp
next
  case (4 toLowerCase n "end" filters reader)
  show ?case
  proof (cases "offset reader < end")
    case True
    then obtain f r1 where one: "parse toLowerCase n reader = Some (Inr (f, r1))"
      and rest: "parseSet toLowerCase n end (filters @ [f]) r1 = Some (Inr (fs', r'))"
      using "4.prems"(1) by (auto split: option.splits sum.splits)
    have p1: "buf r1 = buf reader \<and> offset reader < offset r1 \<and> offset r1 \<le> length (buf reader)"
      using "4.IH"(1) [OF True one] .
    then have "offset r1 \<le> length (buf r1)" by simp
    from "4.IH"(2) [OF True one refl refl rest this] p1 show ?thesis by simp
  next
    case False
    then show ?thesis using "4.prems" by simp
  qed
qed


lemma parse_returns:
  "length (buf r) - offset r < n \<Longrightarrow> parse toLowerCase n r \<noteq> None"
  "offset r \<le> length (buf r) \<Longrightarrow> length (buf r) - offset r + 1 < n \<Longrightarrow>
     parseSet toLowerCase n end fs r \<noteq> None"
proof (induction toLowerCase n r and toLowerCase n "end" fs r rule: parse_parseSet.induct)
  case (1 toLowerCase reader)
  then show ?case by simp
next
  case (2 toLowerCase n reader)
  show ?case
  proof (cases "readSequence reader")
    case (Inl e)
    then show ?thesis by simp
  next
    case (Inr x)
    obtain a r1 where x: "x = (a, r1)" by (cases x)
    show ?thesis
    proof (cases a)
      case None
      then show ?thesis using Inr x by simp
    next
      case (Some t)
      have head: "readSequence reader = Inr (Some t, r1)" using Inr x Some by simp
      note h = readSequence_props [OF head]
      have r1: "offset r1 \<le> length (buf r1)" using h by simp
      have fuel: "length (buf r1) - offset r1 + 1 < n" using h "2.prems" by simp
      consider (conj) "t = SearchFilter_and"
        | (eq) "t \<noteq> SearchFilter_and" "t = SearchFilter_equalityMatch"
        | (neg) "t \<noteq> SearchFilter_and" "t = SearchFilter_not"
        | (disj) "t \<noteq> SearchFilter_and" "t = SearchFilter_or"
        | (other) "t \<noteq> SearchFilter_and" "t \<noteq> SearchFilter_equalityMatch"
            "t \<noteq> SearchFilter_not" "t \<noteq> SearchFilter_or"
        by blast
      then show ?thesis
      proof cases
        case conj
        have "parseSet toLowerCase n (offset r1 + len r1) [] r1 \<noteq> None"
          using "2.IH"(1) [OF head refl refl conj r1 fuel] .
        then show ?thesis using head conj by (auto split: sum.splits)
      next
        case eq
        then show ?thesis using head by (simp add: SearchFilter_defs split: sum.splits)
      next
        case neg
        then have tags: "t \<noteq> SearchFilter_approxMatch" "t \<noteq> SearchFilter_equalityMatch"
          "t \<noteq> SearchFilter_extensibleMatch" "t \<noteq> SearchFilter_greaterOrEqual"
          "t \<noteq> SearchFilter_lessOrEqual"
          by (simp_all add: SearchFilter_defs)
        have room: "length (buf r1) - offset r1 < n" using fuel by simp
        have "parse toLowerCase n r1 \<noteq> None"
          using "2.IH"(2) [OF head refl refl neg(1) tags neg(2) room] .
        then show ?thesis using head neg tags by (auto split: sum.splits)
      next
        case disj
        then have tags: "t \<noteq> SearchFilter_approxMatch" "t \<noteq> SearchFilter_equalityMatch"
          "t \<noteq> SearchFilter_extensibleMatch" "t \<noteq> SearchFilter_greaterOrEqual"
          "t \<noteq> SearchFilter_lessOrEqual" "t \<noteq> SearchFilter_not"
          by (simp_all add: SearchFilter_defs)
        have "parseSet toLowerCase n (offset r1 + len r1) [] r1 \<noteq> None"
          using "2.IH"(3) [OF head refl refl disj(1) tags disj(2) r1 fuel] .
        then show ?thesis using head disj tags by (auto split: sum.splits)
      next
        case other
        then show ?thesis using head by (simp split: sum.splits)
      qed
    qed
  qed
next
  case (3 toLowerCase "end" filters reader)
  then show ?case by simp
next
  case (4 toLowerCase n "end" filters reader)
  show ?case
  proof (cases "offset reader < end")
    case True
    have "length (buf reader) - offset reader < n" using "4.prems" by simp
    from "4.IH"(1) [OF True this] obtain res where one: "parse toLowerCase n reader = Some res" by blast
    show ?thesis
    proof (cases res)
      case (Inl e)
      then show ?thesis using True one by simp
    next
      case (Inr p)
      obtain f r1 where p: "p = (f, r1)" by (cases p)
      have one': "parse toLowerCase n reader = Some (Inr (f, r1))" using one Inr p by simp
      note pr = parse_progress(1) [OF one']
      have r1: "offset r1 \<le> length (buf r1)" using pr by simp
      have "length (buf r1) - offset r1 + 1 < n" using pr "4.prems" by auto
      from "4.IH"(2) [OF True one' refl refl r1 this] show ?thesis
        using True one' by simp
    qed
  next
    case False
    then show ?thesis by simp
  qed
qed

lemma parseBinary_returns: "\<exists>res. parseBinary toLowerCase bytes = Some res"
proof -
  have "parse toLowerCase (Suc (length bytes)) \<lparr>buf = bytes, offset = 0, len = 0\<rparr> \<noteq> None"
    by (rule parse_returns(1)) simp
  then show ?thesis by (auto simp: parseBinary_def)
qed

text \<open>
  The strings of an equality filter come back from their bytes as they are; only the
  lower case is taken.
\<close>

lemma as_parsed_strings:
  assumes "\<forall>u \<in> set us. scalar_value u" and "\<forall>u \<in> set vs. scalar_value u"
  shows "as_parsed toLowerCase (EqualityFilter (utf8 us) (Str (utf8 vs)))
         = EqualityFilter (toLowerCase (utf8 us))
             (Str (if toLowerCase (utf8 us) = ''objectclass'' then toLowerCase (utf8 vs)
                   else utf8 vs))"
  by (simp add: Let_def utf8_kept [OF assms(1)] utf8_kept [OF assms(2)])




end
